theory Spec2Isabelle
  imports Main
begin

section \<open>Python values used by the progress printer\<close>

text \<open>
  Exceptions of the Python code are values. Each constructor is the Python exception
  class raised at the modelled place.
\<close>

datatype error = IndexError | KeyError | TypeError | ValueError | ZeroDivisionError

text \<open>
  A cell of \<open>job_time_tracker\<close>. The frame is created filled with \<open>np.nan\<close>, so a cell
  is a float entry (\<open>NaN\<close> or a number; only the comparison of a number with \<open>-1\<close>
  matters, so numbers are integers here) or a completion timestamp, in whole seconds
  (\<open>replace(microsecond=0)\<close>).
\<close>

datatype cell = NaN | Number int | Timestamp nat

text \<open>\<open>Series.isnull()\<close> on one cell.\<close>

fun isnull :: "cell \<Rightarrow> bool" where
  "isnull NaN = True"
| "isnull (Number x) = False"
| "isnull (Timestamp t) = False"

text \<open>\<open>current_job_times != -1\<close> on one cell: a timestamp is never equal to an integer,
  and \<open>nan != -1\<close> is true.\<close>

fun ne_minus_one :: "cell \<Rightarrow> bool" where
  "ne_minus_one NaN = True"
| "ne_minus_one (Number x) = (x \<noteq> - 1)"
| "ne_minus_one (Timestamp t) = True"

text \<open>
  One entry of \<open>splits\<close>. \<open>Elapsed d\<close> is the difference of two timestamps, in seconds;
  \<open>Dash\<close> is the placeholder \<open>'-'\<close> of \<open>np.where\<close>; \<open>NanArith a b\<close> stands for \<open>a - b\<close>
  when an operand is not a timestamp: what the array library makes of it is not part of
  the repository, so the operands are kept.
\<close>

datatype split = Dash | Elapsed int | NanArith cell cell

fun cell_sub :: "cell \<Rightarrow> cell \<Rightarrow> split" where
  "cell_sub (Timestamp a) (Timestamp b) = Elapsed (int a - int b)"
| "cell_sub a b = NanArith a b"

text \<open>\<open>np.where(cond, current_job_times - prev_job_times, '-')\<close>, element by element.\<close>

definition where_split :: "cell \<Rightarrow> cell \<Rightarrow> split" where
  "where_split cur prev = (if ne_minus_one cur then cell_sub cur prev else Dash)"

section \<open>Format strings\<close>

text \<open>
  The format strings that \<open>configure_prints\<close> builds are sequences of replacement fields
  \<open>prefix {:fill align width} suffix\<close>. A field is kept as its parts; the width is the
  integer whose \<open>str\<close> the code splices into the specification.
\<close>

datatype align = AlignLeft | AlignRight

datatype field = Field string char align int string

fun pad :: "char \<Rightarrow> align \<Rightarrow> nat \<Rightarrow> string \<Rightarrow> string" where
  "pad c AlignLeft w s = s @ replicate (w - length s) c"
| "pad c AlignRight w s = replicate (w - length s) c @ s"

text \<open>
  Formatting a string with one field. A negative width puts a sign into the
  specification, which \<open>str.format\<close> refuses for a string argument.
\<close>

fun format_field :: "field \<Rightarrow> string \<Rightarrow> error + string" where
  "format_field (Field pre c al w suf) a =
     (if w < 0 then Inl ValueError else Inr (pre @ pad c al (nat w) a @ suf))"

text \<open>\<open>fmt.format(*args)\<close>: fields take the arguments in order; surplus arguments are
  ignored, a field without an argument raises.\<close>

fun format_fields :: "field list \<Rightarrow> string list \<Rightarrow> error + string" where
  "format_fields [] args = Inr []"
| "format_fields (f # fs) [] = Inl IndexError"
| "format_fields (f # fs) (a # args) =
     (case format_field f a of
        Inl e \<Rightarrow> Inl e
      | Inr s \<Rightarrow> (case format_fields fs args of
                    Inl e \<Rightarrow> Inl e
                  | Inr r \<Rightarrow> Inr (s @ r)))"

text \<open>\<open>str(i)\<close> for a non-negative integer.\<close>

definition digit_char :: "nat \<Rightarrow> char" where
  "digit_char d = ''0123456789'' ! d"

fun str_nat :: "nat \<Rightarrow> string" where
  "str_nat n = (if n < 10 then [digit_char n] else str_nat (n div 10) @ [digit_char (n mod 10)])"

declare str_nat.simps [simp del]

text \<open>\<open>'{:d} / {:d}'.format(a, b)\<close>.\<close>

definition job_str :: "nat \<Rightarrow> nat \<Rightarrow> string" where
  "job_str a b = str_nat a @ '' / '' @ str_nat b"

section \<open>The parallel printer\<close>

text \<open>
  What the printer writes to the console. A message line is kept as the arguments given
  to \<open>parallel_message.format\<close>: the clock reading, the two numbers of the job string
  and the entries of \<open>job_times\<close> (for \<open>print_jobs_completed\<close>: the total numbers and the
  per-process pairs).
\<close>

datatype out =
    Text string
  | CarriageReturn
  | Progress nat nat nat "split list"
  | Status nat nat nat "(nat \<times> nat) list"

text \<open>
  A dictionary is an association list in insertion order. \<open>job_time_tracker\<close> is a list
  of rows, one per job index, each with one cell per dictionary key, in key order.
\<close>

record printer =
  prev_print_carriage :: bool
  total_procs :: int
  proc_job_dict :: "(nat \<times> nat) list"
  max_jobs :: nat
  min_jobs :: nat
  current_job :: nat
  proc_job_completed_dict :: "(nat \<times> nat) list"
  start_time :: "nat option"
  job_time_tracker :: "cell list list"
  parallel_divider :: string
  parallel_title :: string
  parallel_message :: "field list"
  console :: "out list"

subsection \<open>\<open>configure_prints\<close>\<close>

definition time_col_len0 :: int where "time_col_len0 = 12"
definition job_col_len :: int where "job_col_len = 17"

definition process_col_len :: "int \<Rightarrow> int" where
  "process_col_len n = (120 - time_col_len0 - job_col_len) div n"

definition time_col_len :: "int \<Rightarrow> int" where
  "time_col_len n = time_col_len0 + (120 - time_col_len0 - job_col_len) mod n"

definition parallel_divider_fmt :: "int \<Rightarrow> field list" where
  "parallel_divider_fmt n =
     Field ''+'' (CHR ''-'') AlignLeft (time_col_len n - 2) ''+'' #
     Field '''' (CHR ''-'') AlignLeft (job_col_len - 1) ''+'' #
     replicate (nat n) (Field '''' (CHR ''-'') AlignLeft (process_col_len n - 1) ''+'')"

definition parallel_message_fmt :: "int \<Rightarrow> field list" where
  "parallel_message_fmt n =
     Field ''| '' (CHR '' '') AlignRight (time_col_len n - 4) '' |'' #
     Field '' '' (CHR '' '') AlignRight (job_col_len - 3) '' |'' #
     replicate (nat n) (Field '' '' (CHR '' '') AlignRight (process_col_len n - 3) '' |'')"

definition process_titles :: "int \<Rightarrow> string list" where
  "process_titles n = map (\<lambda>i. ''P_'' @ str_nat i) [1 ..< nat (n + 1)]"

text \<open>
  \<open>configure_prints\<close>: the integer division by \<open>total_procs\<close> raises for zero; then the
  divider and the title are formatted, in this order.
\<close>

definition configure_prints :: "printer \<Rightarrow> error + printer" where
  "configure_prints s =
     (let n = total_procs s in
      if n = 0 then Inl ZeroDivisionError
      else case format_fields (parallel_divider_fmt n) (replicate (nat (n + 2)) '''') of
        Inl e \<Rightarrow> Inl e
      | Inr d \<Rightarrow>
         (case format_fields (parallel_message_fmt n)
                 (''Time'' # ''Job # / Total'' # process_titles n) of
            Inl e \<Rightarrow> Inl e
          | Inr t \<Rightarrow> Inr (s\<lparr>parallel_divider := d,
                            parallel_message := parallel_message_fmt n,
                            parallel_title := t\<rparr>)))"

subsection \<open>\<open>__init__\<close>\<close>

text \<open>\<open>max\<close> and \<open>min\<close> of the dictionary's values raise on an empty dictionary.\<close>

definition init_printer :: "int \<Rightarrow> (nat \<times> nat) list \<Rightarrow> error + printer" where
  "init_printer n d =
     (if d = [] then Inl ValueError
      else configure_prints
        \<lparr>prev_print_carriage = False,
         total_procs = n,
         proc_job_dict = d,
         max_jobs = Max (set (map snd d)),
         min_jobs = Min (set (map snd d)),
         current_job = 0,
         proc_job_completed_dict = map (\<lambda>(p, c). (p, 0)) d,
         start_time = None,
         job_time_tracker =
           replicate (Max (set (map snd d))) (replicate (length d) NaN),
         parallel_divider = '''',
         parallel_title = '''',
         parallel_message = [],
         console = []\<rparr>)"

subsection \<open>\<open>print_jobs_completed\<close>, \<open>print_parallel_message\<close>\<close>

definition emit :: "out list \<Rightarrow> printer \<Rightarrow> printer" where
  "emit xs s = s\<lparr>console := console s @ xs\<rparr>"

text \<open>
  What \<open>parallel_message.format\<close> raises for a number of arguments, whatever their text:
  the first field, from the left, with a negative width or without an argument.
\<close>

fun format_error :: "field list \<Rightarrow> nat \<Rightarrow> error option" where
  "format_error [] k = None"
| "format_error (f # fs) 0 = Some IndexError"
| "format_error (Field pre c al w suf # fs) (Suc k) =
     (if w < 0 then Some ValueError else format_error fs k)"

text \<open>\<open>d[k] += 1\<close>: a missing key raises; the key keeps its place in the dictionary.\<close>

definition dict_incr :: "(nat \<times> nat) list \<Rightarrow> nat \<Rightarrow> error + (nat \<times> nat) list" where
  "dict_incr d k =
     (case map_of d k of
        None \<Rightarrow> Inl KeyError
      | Some v \<Rightarrow> Inr (map (\<lambda>(p, c). if p = k then (p, c + 1) else (p, c)) d))"

text \<open>
  \<open>print_jobs_completed\<close>, with the clock reading \<open>t\<close>. The line is written with
  \<open>end=''\<close>; it is preceded by a carriage return when the previous line was one too.
\<close>

definition print_jobs_completed :: "nat \<Rightarrow> printer \<Rightarrow> error + printer" where
  "print_jobs_completed t s =
     (let line = Status t (sum_list (map snd (proc_job_completed_dict s)))
                          (sum_list (map snd (proc_job_dict s)))
                          (map (\<lambda>(p, c). (case map_of (proc_job_completed_dict s) p of
                                              Some k \<Rightarrow> k | None \<Rightarrow> 0, c))
                               (proc_job_dict s))
      in if \<exists>p \<in> set (map fst (proc_job_dict s)). map_of (proc_job_completed_dict s) p = None
         then Inl KeyError
         else case format_error (parallel_message s) (2 + length (proc_job_dict s)) of
           Some e \<Rightarrow> Inl e
         | None \<Rightarrow>
            (if prev_print_carriage s then Inr (emit [CarriageReturn, line] s)
             else Inr ((emit [line] s)\<lparr>prev_print_carriage := True\<rparr>)))"

text \<open>
  \<open>print_parallel_message\<close>, with the clock reading \<open>t\<close>. For job 0 the previous times
  are the scalar \<open>start_time\<close>; subtracting \<open>None\<close> raises. Otherwise they are the row
  above. Both branches read the row at \<open>job_num\<close>; a row outside the frame raises.
\<close>

definition print_parallel_message :: "nat \<Rightarrow> nat \<Rightarrow> printer \<Rightarrow> error + printer" where
  "print_parallel_message t job_num s =
     (let s1 = (emit [CarriageReturn] s)\<lparr>prev_print_carriage := False\<rparr>;
          m = job_time_tracker s
      in if job_num = 0 then
           (if length m = 0 then Inl IndexError
            else case start_time s of
              None \<Rightarrow> Inl TypeError
            | Some st \<Rightarrow>
               (let job_times = map (\<lambda>c. where_split c (Timestamp st)) (m ! 0)
                in case format_error (parallel_message s) (2 + length job_times) of
                  Some e \<Rightarrow> Inl e
                | None \<Rightarrow> print_jobs_completed t
                           (emit [Progress t (job_num + 1) (max_jobs s) job_times] s1)))
         else
           (if length m \<le> job_num then Inl IndexError
            else
              (let job_times = map (\<lambda>(c, p). where_split c p)
                                   (zip (m ! job_num) (m ! (job_num - 1)))
               in case format_error (parallel_message s) (2 + length job_times) of
                 Some e \<Rightarrow> Inl e
               | None \<Rightarrow> print_jobs_completed t
                          (emit [Progress t (job_num + 1) (max_jobs s) job_times] s1))))"

subsection \<open>\<open>update\<close>\<close>

text \<open>\<open>frame.iloc[r, c] = v\<close>: positions outside the frame raise.\<close>

definition iloc_set :: "cell list list \<Rightarrow> nat \<Rightarrow> nat \<Rightarrow> cell \<Rightarrow> error + cell list list" where
  "iloc_set m r c v =
     (if r < length m \<and> c < length (m ! r) then Inr (m[r := (m ! r)[c := v]])
      else Inl IndexError)"

text \<open>\<open>frame.iloc[r, cols]\<close>: the cells of row \<open>r\<close> at the listed column positions.\<close>

definition iloc_get :: "cell list list \<Rightarrow> nat \<Rightarrow> nat list \<Rightarrow> error + cell list" where
  "iloc_get m r cols =
     (if r < length m \<and> (\<forall>c \<in> set cols. c < length (m ! r)) then Inr (map (\<lambda>c. m ! r ! c) cols)
      else Inl IndexError)"

definition non_min_procs :: "(nat \<times> nat) list \<Rightarrow> nat \<Rightarrow> nat list" where
  "non_min_procs d job_num =
     filter (\<lambda>proc. case map_of d proc of Some c \<Rightarrow> c > job_num | None \<Rightarrow> False) (map fst d)"

text \<open>
  \<open>update\<close>, with the clock reading \<open>t\<close> (the readings of one call are one instant).
\<close>

definition update :: "nat \<Rightarrow> nat \<Rightarrow> nat \<Rightarrow> printer \<Rightarrow> error + printer" where
  "update t proc_num job_num s =
     (case iloc_set (job_time_tracker s) job_num proc_num (Timestamp t) of
        Inl e \<Rightarrow> Inl e
      | Inr m \<Rightarrow>
         (case dict_incr (proc_job_completed_dict s) proc_num of
            Inl e \<Rightarrow> Inl e
          | Inr done \<Rightarrow>
             (let s1 = s\<lparr>job_time_tracker := m, proc_job_completed_dict := done\<rparr> in
              case iloc_get m job_num (non_min_procs (proc_job_dict s) job_num) of
                Inl e \<Rightarrow> Inl e
              | Inr row \<Rightarrow>
                 (if \<not> (\<exists>c \<in> set row. isnull c) then print_parallel_message t job_num s1
                  else Inr s1))))"

subsection \<open>\<open>print_notify_parallel_begin\<close>, \<open>print_notify_parallel_end\<close>\<close>

definition print_notify_parallel_begin :: "nat \<Rightarrow> printer \<Rightarrow> printer" where
  "print_notify_parallel_begin t s =
     emit [Text (parallel_divider s), Text (parallel_title s), Text (parallel_divider s)]
          (s\<lparr>start_time := Some t\<rparr>)"

definition print_notify_parallel_end :: "printer \<Rightarrow> printer" where
  "print_notify_parallel_end s = emit [Text (parallel_divider s)] s"

section \<open>The completion barrier\<close>

fun is_timestamp :: "cell \<Rightarrow> bool" where
  "is_timestamp (Timestamp t) = True"
| "is_timestamp c = False"

text \<open>
  A progress report for job index \<open>k\<close> on the console: the line whose job string starts
  with \<open>k + 1\<close>. \<open>reports k s\<close> counts them.
\<close>

fun is_report :: "nat \<Rightarrow> out \<Rightarrow> bool" where
  "is_report k (Progress t j m js) = (j = k + 1)"
| "is_report k x = False"

definition reports :: "nat \<Rightarrow> printer \<Rightarrow> nat" where
  "reports k s = length (filter (is_report k) (console s))"

text \<open>
  Global completion, in the words of the specification: every process whose job count
  exceeds \<open>k\<close> has a completion timestamp at row \<open>k\<close>; the others are not asked.
\<close>

definition globally_complete :: "printer \<Rightarrow> nat \<Rightarrow> bool" where
  "globally_complete s k =
     (\<forall>(p, c) \<in> set (proc_job_dict s). c > k \<longrightarrow> is_timestamp (job_time_tracker s ! k ! p))"

text \<open>
  The printer as \<open>parallel_fit_predict\<close> builds and uses it: the keys of the dictionaries
  are the column positions \<open>0, 1, ...\<close> (from \<open>range(0, processors)\<close>), the frame has
  \<open>max_jobs\<close> rows and one column per key, no process has more than \<open>max_jobs\<close> jobs,
  a cell is empty or a timestamp, the message format takes the arguments of a line, and
  \<open>print_notify_parallel_begin\<close> has set the start time.
\<close>

definition wf_printer :: "printer \<Rightarrow> bool" where
  "wf_printer s =
     (map fst (proc_job_dict s) = [0 ..< length (proc_job_dict s)] \<and>
      map fst (proc_job_completed_dict s) = map fst (proc_job_dict s) \<and>
      length (job_time_tracker s) = max_jobs s \<and>
      (\<forall>(p, c) \<in> set (proc_job_dict s). c \<le> max_jobs s) \<and>
      (\<forall>row \<in> set (job_time_tracker s). length row = length (proc_job_dict s)) \<and>
      (\<forall>row \<in> set (job_time_tracker s). \<forall>c \<in> set row. c = NaN \<or> is_timestamp c) \<and>
      format_error (parallel_message s) (2 + length (proc_job_dict s)) = None \<and>
      start_time s \<noteq> None)"

text \<open>The entries of \<open>job_times\<close> that \<open>print_parallel_message\<close> computes.\<close>

definition job_times_of :: "printer \<Rightarrow> nat \<Rightarrow> split list" where
  "job_times_of s k =
     (if k = 0 then map (\<lambda>c. where_split c (Timestamp (the (start_time s)))) (job_time_tracker s ! 0)
      else map (\<lambda>(c, p). where_split c p)
               (zip (job_time_tracker s ! k) (job_time_tracker s ! (k - 1))))"













section \<open>Column widths\<close>

text \<open>The number of characters a field yields for an argument.\<close>

fun out_len :: "field \<Rightarrow> string \<Rightarrow> nat" where
  "out_len (Field pre c al w suf) a = length pre + max (nat w) (length a) + length suf"

text \<open>The width of a column: what its field yields for an argument that fits.\<close>

fun col_len :: "field \<Rightarrow> nat" where
  "col_len (Field pre c al w suf) = length pre + nat w + length suf"

text \<open>An argument fits a field when it is no longer than the field's width.\<close>

fun fits :: "field \<Rightarrow> string \<Rightarrow> bool" where
  "fits (Field pre c al w suf) a = (int (length a) \<le> w)"

text \<open>The length of the title line of a printer built for \<open>n\<close> processes with one job each.\<close>

definition title_len :: "int \<Rightarrow> error + nat" where
  "title_len n =
     (case init_printer n (map (\<lambda>i. (i, 1)) [0 ..< nat n]) of
        Inl e \<Rightarrow> Inl e | Inr s \<Rightarrow> Inr (length (parallel_title s)))"

text \<open>The printer of the two-worker run as constructed, and the texts of one of its progress lines.\<close>

definition demo_init :: printer where
  "demo_init = (case init_printer 2 [(0, 3), (1, 2)] of Inr s \<Rightarrow> s)"

definition demo_line_args :: "string list" where
  "demo_line_args = [''12:00:05'', job_str 1 3, ''0:00:05'', ''0:00:06'']"

section \<open>The modeler: splitting, workers, merging\<close>

text \<open>
  A data frame is the list of its rows, each with the value of its \<open>id\<close> column and the
  rest of the row. Identifiers are ordered, as \<open>groupby\<close> sorts its keys.
\<close>

type_synonym ('k, 'r) frame = "('k \<times> 'r) list"

text \<open>\<open>df.groupby('id')\<close>, iterated: the keys in sorted order, each with its rows.\<close>

definition groupby_id :: "('k::linorder, 'r) frame \<Rightarrow> ('k \<times> ('k, 'r) frame) list" where
  "groupby_id df =
     map (\<lambda>k. (k, filter (\<lambda>row. fst row = k) df)) (sorted_list_of_set (set (map fst df)))"

text \<open>\<open>Series.unique()\<close>: the values in order of first appearance.\<close>

fun unique :: "'a list \<Rightarrow> 'a list" where
  "unique [] = []"
| "unique (x # xs) = x # removeAll x (unique xs)"

text \<open>\<open>s['id'].nunique()\<close>.\<close>

definition nunique :: "('k, 'r) frame \<Rightarrow> nat" where
  "nunique df = length (unique (map fst df))"

text \<open>
  \<open>np.array_split(ary, n)\<close> on a sequence: a section count that is not positive raises;
  otherwise the first \<open>len mod n\<close> sections have \<open>len div n + 1\<close> elements and the others
  \<open>len div n\<close>.
\<close>

fun take_sections :: "nat list \<Rightarrow> 'a list \<Rightarrow> 'a list list" where
  "take_sections [] xs = []"
| "take_sections (k # ks) xs = take k xs # take_sections ks (drop k xs)"

definition section_sizes :: "nat \<Rightarrow> nat \<Rightarrow> nat list" where
  "section_sizes ntotal n =
     replicate (ntotal mod n) (ntotal div n + 1) @ replicate (n - ntotal mod n) (ntotal div n)"

definition array_split :: "'a list \<Rightarrow> int \<Rightarrow> error + 'a list list" where
  "array_split xs n =
     (if n \<le> 0 then Inl ValueError
      else Inr (take_sections (section_sizes (length xs) (nat n)) xs))"

text \<open>
  \<open>pd.concat(split[:, 1])\<close> for one section. With no group at all the array of groups
  has one axis and indexing its second column raises; a section without groups leaves
  \<open>pd.concat\<close> nothing to concatenate, which raises too.
\<close>

definition frame_of_split :: "nat \<Rightarrow> ('k \<times> ('k, 'r) frame) list \<Rightarrow> error + ('k, 'r) frame" where
  "frame_of_split ntotal split =
     (if ntotal = 0 then Inl IndexError
      else if split = [] then Inl ValueError
      else Inr (concat (map snd split)))"

text \<open>A list comprehension whose element expression may raise: the first exception wins.\<close>

fun collect :: "(error + 'a) list \<Rightarrow> error + 'a list" where
  "collect [] = Inr []"
| "collect (Inl e # xs) = Inl e"
| "collect (Inr x # xs) = (case collect xs of Inl e \<Rightarrow> Inl e | Inr ys \<Rightarrow> Inr (x # ys))"

text \<open>Lines 76 to 93 of \<open>parallel_fit_predict\<close>: from the frame to the list of splits.\<close>

definition list_of_splits :: "('k::linorder, 'r) frame \<Rightarrow> int \<Rightarrow> error + ('k, 'r) frame list" where
  "list_of_splits df n =
     (let groups = groupby_id df in
      case array_split groups n of
        Inl e \<Rightarrow> Inl e
      | Inr sections \<Rightarrow> collect (map (frame_of_split (length groups)) sections))"

text \<open>\<open>dict(zip(range(0, processors), [s['id'].nunique() for s in list_of_splits]))\<close>.\<close>

definition process_job_dict :: "int \<Rightarrow> ('k, 'r) frame list \<Rightarrow> (nat \<times> nat) list" where
  "process_job_dict n splits = zip [0 ..< nat n] (map nunique splits)"

text \<open>
  \<open>np.where(ids == name)[0][0]\<close>: the position of the first occurrence (the name of a
  group is always among the identifiers).
\<close>

definition index_of :: "'a list \<Rightarrow> 'a \<Rightarrow> nat" where
  "index_of ids name = length (takeWhile (\<lambda>x. x \<noteq> name) ids)"

text \<open>
  The jobs of \<open>iterative_fit_predict\<close> on one split, in the order \<open>groups.apply\<close> takes
  them: the group's key, its rows, and the job number handed to \<open>fit_predict_wrapper\<close>.
\<close>

definition worker_jobs :: "('k::linorder, 'r) frame \<Rightarrow> ('k \<times> ('k, 'r) frame \<times> nat) list" where
  "worker_jobs df =
     map (\<lambda>(k, g). (k, g, index_of (unique (map fst df)) k)) (groupby_id df)"

text \<open>
  The process pool. Each worker has the jobs it has not done yet and the predictions it
  has made; \<open>started\<close> lists the keys whose \<open>fit_predict\<close> was called, \<open>calls\<close> the
  calls of \<open>update\<close> made, both in order of time.
\<close>

record ('k, 'r, 'p) pool =
  pending :: "('k \<times> ('k, 'r) frame \<times> nat) list list"
  finished :: "('k \<times> 'p) list list"
  started :: "'k list"
  calls :: "(nat \<times> nat) list"
  shared_printer :: printer

text \<open>
  One step of worker \<open>proc\<close> at time \<open>t\<close>, which is \<open>fit_predict_wrapper\<close> on its next
  group: \<open>fit_predict\<close>, then \<open>update\<close>. An exception ends the run; it is returned with
  the keys started so far. A worker without jobs left does nothing.
\<close>

definition pool_step ::
  "(('k, 'r) frame \<Rightarrow> error + 'p) \<Rightarrow> nat \<times> nat \<Rightarrow> ('k, 'r, 'p) pool
     \<Rightarrow> (error \<times> 'k list) + ('k, 'r, 'p) pool" where
  "pool_step fit_predict tp st =
     (let t = fst tp; proc = snd tp in
      if proc < length (pending st) then
        (case pending st ! proc of
           [] \<Rightarrow> Inr st
         | (k, g, job_num) # rest \<Rightarrow>
            (case fit_predict g of
               Inl e \<Rightarrow> Inl (e, started st @ [k])
             | Inr predictions \<Rightarrow>
                (case update t proc job_num (shared_printer st) of
                   Inl e \<Rightarrow> Inl (e, started st @ [k])
                 | Inr pr \<Rightarrow>
                    Inr (st\<lparr>pending := (pending st)[proc := rest],
                            finished := (finished st)[proc := finished st ! proc @ [(k, predictions)]],
                            started := started st @ [k],
                            calls := calls st @ [(proc, job_num)],
                            shared_printer := pr\<rparr>))))
      else Inr st)"

text \<open>A schedule says which worker takes its next step when.\<close>

fun run_pool ::
  "(('k, 'r) frame \<Rightarrow> error + 'p) \<Rightarrow> (nat \<times> nat) list \<Rightarrow> ('k, 'r, 'p) pool
     \<Rightarrow> (error \<times> 'k list) + ('k, 'r, 'p) pool" where
  "run_pool fit_predict [] st = Inr st"
| "run_pool fit_predict (tp # sched) st =
     (case pool_step fit_predict tp st of
        Inl e \<Rightarrow> Inl e
      | Inr st' \<Rightarrow> run_pool fit_predict sched st')"

text \<open>The pool as \<open>starmap\<close> starts it: one worker per split, nothing done yet.\<close>

definition start_pool :: "('k::linorder, 'r) frame list \<Rightarrow> printer \<Rightarrow> ('k, 'r, 'p) pool" where
  "start_pool splits pr =
     \<lparr>pending = map worker_jobs splits,
      finished = map (\<lambda>s. []) splits,
      started = [],
      calls = [],
      shared_printer = pr\<rparr>"

text \<open>\<open>pd.concat(predictions_df_list)\<close>: the frames one after the other; an empty list raises.\<close>

definition concat_frames :: "('k \<times> 'p) list list \<Rightarrow> error + ('k \<times> 'p) list" where
  "concat_frames frames = (if frames = [] then Inl ValueError else Inr (concat frames))"

text \<open>
  How a run of \<open>parallel_fit_predict\<close> ends: with an exception, after the listed keys
  were started; not at all, when the schedule leaves a worker with jobs (\<open>pool.join\<close>
  waits for it); or with the predictions and the console.
\<close>

datatype ('k, 'p) outcome =
    Raised error "'k list"
  | Unfinished
  | Done "('k \<times> 'p) list" "out list"

text \<open>
  \<open>parallel_fit_predict\<close> for \<open>processors = n\<close>, started at time \<open>t0\<close>, with the
  workers scheduled by \<open>sched\<close>.
\<close>

definition parallel_fit_predict ::
  "(('k::linorder, 'r) frame \<Rightarrow> error + 'p) \<Rightarrow> ('k, 'r) frame \<Rightarrow> int \<Rightarrow> nat
     \<Rightarrow> (nat \<times> nat) list \<Rightarrow> ('k, 'p) outcome" where
  "parallel_fit_predict fit_predict df n t0 sched =
     (case list_of_splits df n of
        Inl e \<Rightarrow> Raised e []
      | Inr splits \<Rightarrow>
         (case init_printer n (process_job_dict n splits) of
            Inl e \<Rightarrow> Raised e []
          | Inr pr \<Rightarrow>
             (case run_pool fit_predict sched
                     (start_pool splits (print_notify_parallel_begin t0 pr)) of
                Inl (e, ks) \<Rightarrow> Raised e ks
              | Inr st \<Rightarrow>
                 (if list_all (\<lambda>js. js = []) (pending st) then
                    (case concat_frames (finished st) of
                       Inl e \<Rightarrow> Raised e (started st)
                     | Inr predictions \<Rightarrow>
                        Done predictions (console (print_notify_parallel_end (shared_printer st))))
                  else Unfinished))))"

text \<open>
  Groups as \<open>groupby\<close> yields them: keys in strictly increasing order, no group empty,
  every row of a group under the group's key.
\<close>

definition wf_groups :: "('k::linorder \<times> ('k, 'r) frame) list \<Rightarrow> bool" where
  "wf_groups gs =
     (sorted (map fst gs) \<and> distinct (map fst gs) \<and>
      (\<forall>(k, g) \<in> set gs. g \<noteq> [] \<and> (\<forall>row \<in> set g. fst row = k)))"

text \<open>The sections \<open>np.array_split\<close> cuts the groups of a frame into.\<close>

definition sections_of :: "('k::linorder, 'r) frame \<Rightarrow> int \<Rightarrow> ('k \<times> ('k, 'r) frame) list list" where
  "sections_of df n =
     take_sections (section_sizes (length (groupby_id df)) (nat n)) (groupby_id df)"

text \<open>The job numbers worker \<open>p\<close> has passed to \<open>update\<close>, in order.\<close>

definition calls_of :: "nat \<Rightarrow> ('k, 'r, 'p) pool \<Rightarrow> nat list" where
  "calls_of p st = map snd (filter (\<lambda>c. fst c = p) (calls st))"

text \<open>
  What holds of a pool at any time of a run that started with the jobs \<open>jobs0\<close>:
  every worker has done a prefix of its jobs, in order, holds the prediction of each job
  done, and has passed exactly their job numbers to \<open>update\<close>.
\<close>

definition pool_inv ::
  "(('k, 'r) frame \<Rightarrow> error + 'p) \<Rightarrow> ('k \<times> ('k, 'r) frame \<times> nat) list list
     \<Rightarrow> ('k, 'r, 'p) pool \<Rightarrow> bool" where
  "pool_inv fit_predict jobs0 st =
     (length (pending st) = length jobs0 \<and> length (finished st) = length jobs0 \<and>
      (\<forall>p < length jobs0.
         length (finished st ! p) \<le> length (jobs0 ! p) \<and>
         pending st ! p = drop (length (finished st ! p)) (jobs0 ! p) \<and>
         map (\<lambda>(k, y). (k, Inr y)) (finished st ! p) =
           map (\<lambda>(k, g, j). (k, fit_predict g)) (take (length (finished st ! p)) (jobs0 ! p)) \<and>
         calls_of p st = map (\<lambda>(k, g, j). j) (take (length (finished st ! p)) (jobs0 ! p))))"











section \<open>Properties of \<open>update\<close>\<close>

lemma map_of_keys_upt:
  assumes "map fst d = [0 ..< length d]" and "p < length d"
  shows "map_of d p = Some (snd (d ! p))"
proof -
  have "distinct (map fst d)" using assms(1) by simp
  moreover have "d ! p \<in> set d" using assms(2) by simp
  moreover have "fst (d ! p) = p"
    using assms by (metis nth_map nth_upt add_0 length_map)
  ultimately show ?thesis
    by (metis map_of_is_SomeI prod.collapse)
qed

lemma keys_upt_mem:
  assumes "map fst d = [0 ..< length d]" and "(p, c) \<in> set d"
  shows "p < length d \<and> d ! p = (p, c)"
proof -
  from assms(2) obtain i where i: "i < length d" "d ! i = (p, c)"
    by (auto simp: in_set_conv_nth)
  then have "fst (d ! i) = i" using assms(1)
    by (metis nth_map nth_upt add_0 length_map)
  with i show ?thesis by simp
qed

lemma non_min_procs_set:
  assumes "map fst d = [0 ..< length d]"
  shows "set (non_min_procs d k) = {p. p < length d \<and> snd (d ! p) > k}"
proof -
  have "set (map fst d) = {p. p < length d}"
    by (subst assms) auto
  moreover have "\<And>p. p < length d \<Longrightarrow> map_of d p = Some (snd (d ! p))"
    using map_of_keys_upt[OF assms] by blast
  ultimately show ?thesis
    unfolding non_min_procs_def set_filter by auto
qed

lemma dict_incr_ok:
  assumes "map fst dn = [0 ..< n]" and "p < n"
  shows "\<exists>dn'. dict_incr dn p = Inr dn' \<and> map fst dn' = map fst dn"
proof -
  have n: "n = length dn" using assms(1) by (metis length_map length_upt diff_zero)
  then have "map_of dn p = Some (snd (dn ! p))"
    using map_of_keys_upt assms by blast
  then show ?thesis
    by (auto simp: dict_incr_def split: prod.splits intro!: exI)
qed


lemma print_jobs_completed_ok:
  assumes "map fst (proc_job_completed_dict s) = map fst (proc_job_dict s)"
    and "format_error (parallel_message s) (2 + length (proc_job_dict s)) = None"
  shows "\<exists>ys b. print_jobs_completed t s = Inr (s\<lparr>console := console s @ ys, prev_print_carriage := b\<rparr>)
           \<and> (\<forall>y \<in> set ys. \<forall>k. \<not> is_report k y)"
proof -
  have "\<forall>p \<in> set (map fst (proc_job_dict s)). map_of (proc_job_completed_dict s) p \<noteq> None"
    using assms(1) by (metis map_of_eq_None_iff set_map)
  then have nokey: "\<not> (\<exists>p \<in> set (map fst (proc_job_dict s)). map_of (proc_job_completed_dict s) p = None)"
    by blast
  show ?thesis
  proof (cases "prev_print_carriage s")
    case True
    then show ?thesis
      unfolding print_jobs_completed_def Let_def using nokey assms(2)
      by (intro exI[of _ "[CarriageReturn, Status t (sum_list (map snd (proc_job_completed_dict s)))
                          (sum_list (map snd (proc_job_dict s)))
                          (map (\<lambda>(p, c). (case map_of (proc_job_completed_dict s) p of
                                              Some k \<Rightarrow> k | None \<Rightarrow> 0, c))
                               (proc_job_dict s))]"] exI[of _ True])
         (simp add: emit_def)
  next
    case False
    then show ?thesis
      unfolding print_jobs_completed_def Let_def using nokey assms(2)
      by (intro exI[of _ "[Status t (sum_list (map snd (proc_job_completed_dict s)))
                          (sum_list (map snd (proc_job_dict s)))
                          (map (\<lambda>(p, c). (case map_of (proc_job_completed_dict s) p of
                                              Some k \<Rightarrow> k | None \<Rightarrow> 0, c))
                               (proc_job_dict s))]"] exI[of _ True])
         (simp add: emit_def)
  qed
qed

lemma print_parallel_message_ok:
  assumes "map fst (proc_job_completed_dict s) = map fst (proc_job_dict s)"
    and "format_error (parallel_message s) (2 + length (proc_job_dict s)) = None"
    and "k < length (job_time_tracker s)"
    and "\<forall>row \<in> set (job_time_tracker s). length row = length (proc_job_dict s)"
    and "start_time s \<noteq> None"
  shows "\<exists>ys b. print_parallel_message t k s =
             Inr (s\<lparr>console := console s @ [CarriageReturn, Progress t (k + 1) (max_jobs s) (job_times_of s k)] @ ys,
                   prev_print_carriage := b\<rparr>)
           \<and> (\<forall>y \<in> set ys. \<forall>k'. \<not> is_report k' y)"
proof -
  let ?m = "job_time_tracker s"
  let ?s2 = "emit [Progress t (k + 1) (max_jobs s) (job_times_of s k)]
               ((emit [CarriageReturn] s)\<lparr>prev_print_carriage := False\<rparr>)"
  have len: "length (?m ! k) = length (proc_job_dict s)"
    using assms(3,4) by simp
  have lenp: "k \<noteq> 0 \<Longrightarrow> length (?m ! (k - 1)) = length (proc_job_dict s)"
    using assms(3,4) by simp
  have ljt: "length (job_times_of s k) = length (proc_job_dict s)"
    using len lenp by (cases "k = 0") (simp_all add: job_times_of_def)
  obtain st where st: "start_time s = Some st" using assms(5) by auto
  have step: "print_parallel_message t k s = print_jobs_completed t ?s2"
    using assms(2,3) ljt st len
    by (cases "k = 0") (simp_all add: print_parallel_message_def Let_def job_times_of_def)
  have a1: "map fst (proc_job_completed_dict ?s2) = map fst (proc_job_dict ?s2)"
    using assms(1) by (simp add: emit_def)
  have a2: "format_error (parallel_message ?s2) (2 + length (proc_job_dict ?s2)) = None"
    using assms(2) by (simp add: emit_def)
  from print_jobs_completed_ok[OF a1 a2, of t] obtain ys b where
    r: "print_jobs_completed t ?s2 = Inr (?s2\<lparr>console := console ?s2 @ ys, prev_print_carriage := b\<rparr>)"
    and nr: "\<forall>y \<in> set ys. \<forall>k. \<not> is_report k y" by blast
  have "?s2\<lparr>console := console ?s2 @ ys, prev_print_carriage := b\<rparr> =
        s\<lparr>console := console s @ [CarriageReturn, Progress t (k + 1) (max_jobs s) (job_times_of s k)] @ ys,
          prev_print_carriage := b\<rparr>"
    by (simp add: emit_def)
  with step r nr show ?thesis by metis
qed


lemma cell_not_null_iff: "c = NaN \<or> is_timestamp c \<Longrightarrow> \<not> isnull c \<longleftrightarrow> is_timestamp c"
  by (cases c) auto

lemma set_update_row:
  assumes "row \<in> set (m[k := r])"
  shows "row \<in> set m \<or> row = r \<and> k < length m"
proof (cases "k < length m")
  case True
  have "set (m[k := r]) \<subseteq> insert r (set m)" by (rule set_update_subset_insert)
  then show ?thesis using assms True by auto
next
  case False
  then have "m[k := r] = m" by (simp add: list_update_beyond)
  then show ?thesis using assms by simp
qed

lemma tracker_write_cells:
  assumes "\<forall>row \<in> set m. \<forall>c \<in> set row. c = NaN \<or> is_timestamp c"
  shows "\<forall>row \<in> set (m[k := (m ! k)[p := Timestamp t]]). \<forall>c \<in> set row. c = NaN \<or> is_timestamp c"
proof (intro ballI)
  fix row c assume r: "row \<in> set (m[k := (m ! k)[p := Timestamp t]])" and c: "c \<in> set row"
  from set_update_row[OF r] show "c = NaN \<or> is_timestamp c"
  proof
    assume "row \<in> set m" then show ?thesis using assms c by blast
  next
    assume h: "row = (m ! k)[p := Timestamp t] \<and> k < length m"
    have "set ((m ! k)[p := Timestamp t]) \<subseteq> insert (Timestamp t) (set (m ! k))"
      by (rule set_update_subset_insert)
    then have "c = Timestamp t \<or> c \<in> set (m ! k)" using c h by auto
    moreover have "m ! k \<in> set m" using h by simp
    ultimately show ?thesis using assms by auto
  qed
qed

lemma tracker_write_lengths:
  assumes "\<forall>row \<in> set m. length row = n"
  shows "\<forall>row \<in> set (m[k := (m ! k)[p := v]]). length row = n"
proof
  fix row assume r: "row \<in> set (m[k := (m ! k)[p := v]])"
  from set_update_row[OF r] show "length row = n" using assms by auto
qed

lemma update_result:
  assumes wf: "wf_printer s" and p: "p < length (proc_job_dict s)" and k: "k < max_jobs s"
  shows "\<exists>s'. update t p k s = Inr s' \<and> wf_printer s' \<and>
           proc_job_dict s' = proc_job_dict s \<and> max_jobs s' = max_jobs s \<and>
           start_time s' = start_time s \<and>
           job_time_tracker s' = (job_time_tracker s)[k := (job_time_tracker s ! k)[p := Timestamp t]] \<and>
           (if globally_complete s' k
            then \<exists>ys. console s' = console s @ [CarriageReturn, Progress t (k + 1) (max_jobs s) (job_times_of s' k)] @ ys
                      \<and> (\<forall>y \<in> set ys. \<forall>k'. \<not> is_report k' y)
            else console s' = console s)"
proof -
  let ?d = "proc_job_dict s"
  let ?m = "job_time_tracker s"
  let ?m' = "?m[k := (?m ! k)[p := Timestamp t]]"
  have keys: "map fst ?d = [0 ..< length ?d]"
    and ckeys: "map fst (proc_job_completed_dict s) = map fst ?d"
    and rows: "length ?m = max_jobs s"
    and bnd: "\<forall>(p, c) \<in> set ?d. c \<le> max_jobs s"
    and cols: "\<forall>row \<in> set ?m. length row = length ?d"
    and cells: "\<forall>row \<in> set ?m. \<forall>c \<in> set row. c = NaN \<or> is_timestamp c"
    and fmt: "format_error (parallel_message s) (2 + length ?d) = None"
    and st: "start_time s \<noteq> None"
    using wf by (simp_all add: wf_printer_def)
  have klen: "k < length ?m" using k rows by simp
  have plen: "p < length (?m ! k)" using cols klen p by simp
  have w: "iloc_set ?m k p (Timestamp t) = Inr ?m'"
    using klen plen by (simp add: iloc_set_def)
  have "map fst (proc_job_completed_dict s) = [0 ..< length ?d]" using ckeys keys by simp
  from dict_incr_ok[OF this p] obtain dn where
    dn: "dict_incr (proc_job_completed_dict s) p = Inr dn"
    and dnk: "map fst dn = map fst (proc_job_completed_dict s)" by blast
  define s1 where "s1 = s\<lparr>job_time_tracker := ?m', proc_job_completed_dict := dn\<rparr>"
  have s1: "proc_job_dict s1 = ?d" "max_jobs s1 = max_jobs s" "start_time s1 = start_time s"
    "job_time_tracker s1 = ?m'" "proc_job_completed_dict s1 = dn"
    "parallel_message s1 = parallel_message s" "console s1 = console s"
    by (simp_all add: s1_def)
  have cols': "\<forall>row \<in> set ?m'. length row = length ?d"
    using tracker_write_lengths[OF cols] .
  have cells': "\<forall>row \<in> set ?m'. \<forall>c \<in> set row. c = NaN \<or> is_timestamp c"
    using tracker_write_cells[OF cells] .
  have klen': "k < length ?m'" using klen by simp
  have rowlen: "length (?m' ! k) = length ?d" using cols' klen' nth_mem by blast
  have nm: "set (non_min_procs ?d k) = {q. q < length ?d \<and> snd (?d ! q) > k}"
    using non_min_procs_set[OF keys] .
  have g: "iloc_get ?m' k (non_min_procs ?d k) = Inr (map (\<lambda>c. ?m' ! k ! c) (non_min_procs ?d k))"
    unfolding iloc_get_def using klen' rowlen nm by auto
  have wf1: "wf_printer s1"
    unfolding wf_printer_def s1 using keys ckeys dnk rows bnd cols' cells' fmt st by simp
  have cellk: "\<And>q. q < length ?d \<Longrightarrow> ?m' ! k ! q = NaN \<or> is_timestamp (?m' ! k ! q)"
    using cells' klen' rowlen by (metis nth_mem)
  have cond: "(\<not> (\<exists>c \<in> set (map (\<lambda>c. ?m' ! k ! c) (non_min_procs ?d k)). isnull c))
                \<longleftrightarrow> globally_complete s1 k"
  proof
    assume h: "\<not> (\<exists>c \<in> set (map (\<lambda>c. ?m' ! k ! c) (non_min_procs ?d k)). isnull c)"
    show "globally_complete s1 k"
      unfolding globally_complete_def s1
    proof (clarsimp)
      fix q c assume qc: "(q, c) \<in> set ?d" and kc: "k < c"
      from keys_upt_mem[OF keys qc] have q: "q < length ?d" "?d ! q = (q, c)" by auto
      then have "q \<in> set (non_min_procs ?d k)" using nm kc by simp
      then have "\<not> isnull (?m' ! k ! q)" using h by auto
      then show "is_timestamp (?m' ! k ! q)" using cellk[OF q(1)] cell_not_null_iff by blast
    qed
  next
    assume h: "globally_complete s1 k"
    show "\<not> (\<exists>c \<in> set (map (\<lambda>c. ?m' ! k ! c) (non_min_procs ?d k)). isnull c)"
    proof
      assume "\<exists>c \<in> set (map (\<lambda>c. ?m' ! k ! c) (non_min_procs ?d k)). isnull c"
      then obtain q where q: "q \<in> set (non_min_procs ?d k)" and n: "isnull (?m' ! k ! q)" by auto
      from q nm have ql: "q < length ?d" and qk: "snd (?d ! q) > k" by auto
      have "?d ! q \<in> set ?d" using ql by simp
      moreover have "fst (?d ! q) = q" using keys ql by (metis nth_map nth_upt add_0)
      ultimately have "(q, snd (?d ! q)) \<in> set ?d" by (metis prod.collapse)
      then have "is_timestamp (?m' ! k ! q)" using h qk by (auto simp: globally_complete_def s1)
      then show False using n by (cases "?m' ! k ! q") auto
    qed
  qed
  have upd: "update t p k s =
      (if globally_complete s1 k then print_parallel_message t k s1 else Inr s1)"
    unfolding update_def using w dn g cond by (simp add: Let_def s1_def)
  show ?thesis
  proof (cases "globally_complete s1 k")
    case False
    have "update t p k s = Inr s1" using upd False by simp
    then show ?thesis using wf1 False s1 by (intro exI[of _ s1]) simp
  next
    case True
    have a1: "map fst (proc_job_completed_dict s1) = map fst (proc_job_dict s1)"
      using dnk ckeys by (simp add: s1)
    have a2: "format_error (parallel_message s1) (2 + length (proc_job_dict s1)) = None"
      using fmt by (simp add: s1)
    have a3: "k < length (job_time_tracker s1)" using klen by (simp add: s1)
    have a4: "\<forall>row \<in> set (job_time_tracker s1). length row = length (proc_job_dict s1)"
      using cols' by (simp add: s1)
    have a5: "start_time s1 \<noteq> None" using st by (simp add: s1)
    from print_parallel_message_ok[OF a1 a2 a3 a4 a5, of t] obtain ys b where
      r: "print_parallel_message t k s1 =
            Inr (s1\<lparr>console := console s1 @ [CarriageReturn, Progress t (k + 1) (max_jobs s1) (job_times_of s1 k)] @ ys,
                     prev_print_carriage := b\<rparr>)"
      and nr: "\<forall>y \<in> set ys. \<forall>k'. \<not> is_report k' y" by blast
    define s2 where "s2 = s1\<lparr>console := console s1 @ [CarriageReturn, Progress t (k + 1) (max_jobs s1) (job_times_of s1 k)] @ ys,
                     prev_print_carriage := b\<rparr>"
    have f1: "proc_job_dict s2 = proc_job_dict s" "max_jobs s2 = max_jobs s"
      "start_time s2 = start_time s" "job_time_tracker s2 = ?m'"
      "proc_job_completed_dict s2 = dn" "parallel_message s2 = parallel_message s"
      by (simp_all add: s2_def s1)
    have jt: "job_times_of s2 k = job_times_of s1 k"
      by (simp add: job_times_of_def f1 s1)
    have f2: "console s2 = console s @ [CarriageReturn, Progress t (k + 1) (max_jobs s) (job_times_of s2 k)] @ ys"
      unfolding jt by (simp add: s2_def s1)
    have gc2: "globally_complete s2 k"
      using True by (simp add: globally_complete_def f1 s1)
    have wf2: "wf_printer s2"
      using wf1 unfolding wf_printer_def f1 s1 by simp
    have u: "update t p k s = Inr s2" using upd True r by (simp add: s2_def)
    have e: "\<exists>ys. console s2 = console s @ [CarriageReturn, Progress t (k + 1) (max_jobs s) (job_times_of s2 k)] @ ys
                      \<and> (\<forall>y \<in> set ys. \<forall>k'. \<not> is_report k' y)"
      using f2 nr by blast
    show ?thesis using u wf2 f1(1-4) gc2 e by (intro exI[of _ s2]) simp
  qed
qed

lemma format_fields_error:
  "format_fields fs args = Inl e \<longleftrightarrow> format_error fs (length args) = Some e"
proof (induction fs args rule: format_fields.induct)
  case (3 f fs a args)
  then show ?case by (cases f) (auto split: sum.splits)
qed auto

lemma format_fields_ok:
  "format_fields fs args = Inr r \<Longrightarrow> format_error fs (length args) = None"
  using format_fields_error[of fs args]
  by (metis Inl_Inr_False option.exhaust)









section \<open>The entries of a progress line\<close>











lemma length_process_titles: "length (process_titles n) = nat n"
  by (simp add: process_titles_def)

lemma configure_prints_fields:
  assumes "configure_prints s = Inr s'"
  shows "parallel_message s' = parallel_message_fmt (total_procs s) \<and>
         format_error (parallel_message s') (2 + nat (total_procs s)) = None \<and>
         proc_job_dict s' = proc_job_dict s \<and> proc_job_completed_dict s' = proc_job_completed_dict s \<and>
         max_jobs s' = max_jobs s \<and> job_time_tracker s' = job_time_tracker s \<and>
         console s' = console s \<and> start_time s' = start_time s \<and> total_procs s' = total_procs s"
proof -
  let ?n = "total_procs s"
  from assms obtain d t where
    t: "format_fields (parallel_message_fmt ?n) (''Time'' # ''Job # / Total'' # process_titles ?n) = Inr t"
    and s': "s' = s\<lparr>parallel_divider := d, parallel_message := parallel_message_fmt ?n, parallel_title := t\<rparr>"
    by (auto simp: configure_prints_def Let_def split: if_splits sum.splits)
  from format_fields_ok[OF t] have "format_error (parallel_message_fmt ?n) (2 + nat ?n) = None"
    by (simp add: length_process_titles)
  then show ?thesis using s' by simp
qed

lemma init_printer_wf:
  assumes i: "init_printer (int (length d)) d = Inr s0" and keys: "map fst d = [0 ..< length d]"
  shows "wf_printer (print_notify_parallel_begin t0 s0) \<and>
         proc_job_dict (print_notify_parallel_begin t0 s0) = d \<and>
         (\<forall>row \<in> set (job_time_tracker (print_notify_parallel_begin t0 s0)). \<forall>c \<in> set row. c = NaN) \<and>
         reports k (print_notify_parallel_begin t0 s0) = 0"
proof -
  define s1 where "s1 = \<lparr>prev_print_carriage = False,
         total_procs = int (length d),
         proc_job_dict = d,
         max_jobs = Max (set (map snd d)),
         min_jobs = Min (set (map snd d)),
         current_job = 0,
         proc_job_completed_dict = map (\<lambda>(p, c). (p, 0)) d,
         start_time = None,
         job_time_tracker =
           replicate (Max (set (map snd d))) (replicate (length d) NaN),
         parallel_divider = '''',
         parallel_title = '''',
         parallel_message = [],
         console = []\<rparr>"
  from i have ne: "d \<noteq> []" and c: "configure_prints s1 = Inr s0"
    by (auto simp: init_printer_def s1_def split: if_splits)
  have s1: "total_procs s1 = int (length d)" "proc_job_dict s1 = d"
    "proc_job_completed_dict s1 = map (\<lambda>(p, c). (p, 0)) d"
    "max_jobs s1 = Max (set (map snd d))"
    "job_time_tracker s1 = replicate (Max (set (map snd d))) (replicate (length d) NaN)"
    "console s1 = []"
    by (simp_all add: s1_def)
  have cf: "format_error (parallel_message s0) (2 + nat (total_procs s1)) = None"
    "proc_job_dict s0 = proc_job_dict s1" "proc_job_completed_dict s0 = proc_job_completed_dict s1"
    "max_jobs s0 = max_jobs s1" "job_time_tracker s0 = job_time_tracker s1"
    "console s0 = console s1"
    using configure_prints_fields[OF c] by blast+
  then have s0:
    "format_error (parallel_message s0) (2 + length d) = None"
    "proc_job_dict s0 = d" "proc_job_completed_dict s0 = map (\<lambda>(p, c). (p, 0)) d"
    "max_jobs s0 = Max (set (map snd d))"
    "job_time_tracker s0 = replicate (Max (set (map snd d))) (replicate (length d) NaN)"
    "console s0 = []"
    by (simp_all add: s1)
  let ?s = "print_notify_parallel_begin t0 s0"
  have b: "parallel_message ?s = parallel_message s0" "proc_job_dict ?s = d"
    "proc_job_completed_dict ?s = map (\<lambda>(p, c). (p, 0)) d"
    "max_jobs ?s = Max (set (map snd d))"
    "job_time_tracker ?s = replicate (Max (set (map snd d))) (replicate (length d) NaN)"
    "console ?s = [Text (parallel_divider s0), Text (parallel_title s0), Text (parallel_divider s0)]"
    "start_time ?s = Some t0"
    by (simp_all add: print_notify_parallel_begin_def emit_def s0)
  have k1: "map fst (map (\<lambda>(p, c). (p, 0::nat)) d) = map fst d"
    by (induction d) auto
  have bnd: "\<forall>(p, c) \<in> set d. c \<le> Max (set (map snd d))"
  proof (clarify)
    fix p c assume "(p, c) \<in> set d"
    then have "c \<in> set (map snd d)" by force
    then show "c \<le> Max (set (map snd d))" by (intro Max_ge) auto
  qed
  have "wf_printer ?s"
    unfolding wf_printer_def b using keys k1 bnd s0(1) by auto
  moreover have "reports k ?s = 0" by (simp add: reports_def b)
  ultimately show ?thesis using b by auto
qed








section \<open>Properties of \<open>configure_prints\<close>\<close>

lemma pad_length: "length (pad c al w a) = max w (length a)"
  by (cases al) auto

lemma format_fields_length:
  "format_fields fs args = Inr line \<Longrightarrow> length line = sum_list (map2 out_len fs args)"
proof (induction fs args arbitrary: line rule: format_fields.induct)
  case (3 f fs a args)
  then show ?case
    by (cases f) (auto split: sum.splits if_splits simp: pad_length)
qed auto

lemma out_len_fits: "fits f a \<Longrightarrow> out_len f a = col_len f"
  by (cases f) auto

lemma map2_out_len_fits:
  "list_all2 fits fs args \<Longrightarrow> map2 out_len fs args = map col_len fs"
  by (induction fs args rule: list_all2_induct) (auto simp: out_len_fits)

lemma sum_list_replicate_nat: "sum_list (replicate k (x::nat)) = k * x"
  by (induction k) auto

lemma configure_prints_widths:
  assumes c: "configure_prints s = Inr s'" and n: "1 \<le> total_procs s"
  shows "3 \<le> process_col_len (total_procs s)" and "12 \<le> time_col_len (total_procs s)"
    and "format_fields (parallel_divider_fmt (total_procs s))
               (replicate (nat (total_procs s + 2)) []) = Inr (parallel_divider s')"
    and "parallel_message s' = parallel_message_fmt (total_procs s)"
proof -
  let ?n = "total_procs s"
  from c obtain d t where
    d: "format_fields (parallel_divider_fmt ?n) (replicate (nat (?n + 2)) []) = Inr d"
    and t: "format_fields (parallel_message_fmt ?n) (''Time'' # ''Job # / Total'' # process_titles ?n) = Inr t"
    and s': "s' = s\<lparr>parallel_divider := d, parallel_message := parallel_message_fmt ?n, parallel_title := t\<rparr>"
    by (auto simp: configure_prints_def Let_def split: if_splits sum.splits)
  show "format_fields (parallel_divider_fmt ?n) (replicate (nat (?n + 2)) []) = Inr (parallel_divider s')"
    using d s' by simp
  show "parallel_message s' = parallel_message_fmt ?n" using s' by simp
  obtain k where k: "nat ?n = Suc k" using n by (cases "nat ?n") auto
  from format_fields_ok[OF t] have
    "format_error (parallel_message_fmt ?n) (Suc (Suc (nat ?n))) = None"
    by (simp add: length_process_titles)
  then have "\<not> process_col_len ?n - 3 < 0"
    unfolding parallel_message_fmt_def k by (auto split: if_splits)
  then show "3 \<le> process_col_len ?n" by simp
  have "0 \<le> (120 - time_col_len0 - job_col_len) mod ?n"
    using n by (simp add: time_col_len0_def job_col_len_def)
  then show "12 \<le> time_col_len ?n" by (simp add: time_col_len_def time_col_len0_def)
qed

lemma widths_sum:
  assumes "1 \<le> n" and "0 \<le> process_col_len n"
  shows "nat (time_col_len n) + (17 + nat n * nat (process_col_len n)) = 120"
proof -
  have "time_col_len n + 17 + n * process_col_len n = 120"
    by (simp add: time_col_len_def process_col_len_def time_col_len0_def job_col_len_def)
  moreover have "0 \<le> time_col_len n"
    using assms(1) by (simp add: time_col_len_def time_col_len0_def job_col_len_def)
  moreover have "int (nat n * nat (process_col_len n)) = n * process_col_len n"
    using assms by simp
  ultimately show ?thesis by linarith
qed

lemma map2_out_len_empty:
  "\<forall>f \<in> set fs. fits f [] \<Longrightarrow> map2 out_len fs (replicate (length fs) []) = map col_len fs"
  by (induction fs) (auto simp: out_len_fits)

lemma divider_col_lens:
  assumes "3 \<le> process_col_len n" and "12 \<le> time_col_len n"
  shows "map col_len (parallel_divider_fmt n) =
           nat (time_col_len n) # 17 # replicate (nat n) (nat (process_col_len n))"
    and "\<forall>f \<in> set (parallel_divider_fmt n). fits f []"
  using assms by (auto simp: parallel_divider_fmt_def job_col_len_def)

lemma message_col_lens:
  assumes "3 \<le> process_col_len n" and "12 \<le> time_col_len n"
  shows "map col_len (parallel_message_fmt n) =
           nat (time_col_len n) # 17 # replicate (nat n) (nat (process_col_len n))"
  using assms by (auto simp: parallel_message_fmt_def job_col_len_def)

lemma col_lens_sum:
  assumes "1 \<le> n" and "3 \<le> process_col_len n"
  shows "sum_list (nat (time_col_len n) # 17 # replicate (nat n) (nat (process_col_len n))) = 120"
  using widths_sum[of n] assms by (simp add: sum_list_replicate_nat)

lemma configure_prints_column_widths:
  assumes "configure_prints s = Inr s'" and "1 \<le> total_procs s"
  shows "map col_len (parallel_message s') =
           nat (12 + (120 - 12 - 17) mod total_procs s) # 17 #
           replicate (nat (total_procs s)) (nat ((120 - 12 - 17) div total_procs s)) \<and>
         length (parallel_divider s') = 120 \<and>
         (\<forall>args. list_all2 fits (parallel_message s') args \<longrightarrow>
            (\<exists>line. format_fields (parallel_message s') args = Inr line \<and> length line = 120))"
proof -
  let ?n = "total_procs s"
  note w = configure_prints_widths[OF assms]
  have m: "map col_len (parallel_message s') =
             nat (time_col_len ?n) # 17 # replicate (nat ?n) (nat (process_col_len ?n))"
    using message_col_lens[OF w(1,2)] w(4) by simp
  have sum: "sum_list (nat (time_col_len ?n) # 17 # replicate (nat ?n) (nat (process_col_len ?n))) = 120"
    using col_lens_sum[OF assms(2) w(1)] .
  have c1: "map col_len (parallel_message s') =
           nat (12 + (120 - 12 - 17) mod ?n) # 17 #
           replicate (nat ?n) (nat ((120 - 12 - 17) div ?n))"
    using m by (simp add: time_col_len_def process_col_len_def time_col_len0_def job_col_len_def)
  have ld: "length (parallel_divider_fmt ?n) = nat (?n + 2)"
    using assms(2) by (simp add: parallel_divider_fmt_def)
  have "length (parallel_divider s') =
          sum_list (map2 out_len (parallel_divider_fmt ?n) (replicate (nat (?n + 2)) []))"
    using format_fields_length[OF w(3)] .
  also have "\<dots> = sum_list (map col_len (parallel_divider_fmt ?n))"
    using map2_out_len_empty[OF divider_col_lens(2)[OF w(1,2)]] ld by simp
  also have "\<dots> = 120"
    using divider_col_lens(1)[OF w(1,2)] sum by simp
  finally have c2: "length (parallel_divider s') = 120" .
  have c3: "\<forall>args. list_all2 fits (parallel_message s') args \<longrightarrow>
            (\<exists>line. format_fields (parallel_message s') args = Inr line \<and> length line = 120)"
  proof (intro allI impI)
    fix args assume f: "list_all2 fits (parallel_message s') args"
    then have la: "length args = length (parallel_message s')" by (simp add: list_all2_lengthD)
    have lm: "length (parallel_message s') = 2 + nat ?n"
      using w(4) by (simp add: parallel_message_fmt_def)
    have "format_error (parallel_message s') (2 + nat ?n) = None"
      using configure_prints_fields[OF assms(1)] by blast
    then have "format_error (parallel_message s') (length args) = None"
      using la lm by metis
    then obtain line where l: "format_fields (parallel_message s') args = Inr line"
      using format_fields_error[of "parallel_message s'" args]
      by (cases "format_fields (parallel_message s') args") auto
    have "length line = sum_list (map2 out_len (parallel_message s') args)"
      using format_fields_length[OF l] .
    also have "\<dots> = sum_list (map col_len (parallel_message s'))"
      using map2_out_len_fits[OF f] by simp
    also have "\<dots> = 120" using m sum by simp
    finally show "\<exists>line. format_fields (parallel_message s') args = Inr line \<and> length line = 120"
      using l by simp
  qed
  show ?thesis using c1 c2 c3 by blast
qed

text \<open>The title line for 16 processes.\<close>

theorem column_widths_counterexample: "title_len 16 = Inr 143"
  by code_simp

text \<open>
  C6, as amended. When the printer is constructed for \<open>n \<ge> 1\<close> processes, every process
  column has the width \<open>(120 - 12 - 17) div n\<close>, the time column the width
  \<open>12 + (120 - 12 - 17) mod n\<close>, the divider has 120 characters, and a message line
  has 120 characters when each of its texts fits its column. As stated, for every line,
  the claim fails: for 16 processes the title line has 143 characters, since the titles
  from \<open>P_1\<close> on are longer than the two characters their columns leave them.
\<close>

theorem column_widths:
  assumes "init_printer n d = Inr s" and "1 \<le> n"
  shows "map col_len (parallel_message s) =
           nat (12 + (120 - 12 - 17) mod n) # 17 # replicate (nat n) (nat ((120 - 12 - 17) div n)) \<and>
         length (parallel_divider s) = 120 \<and>
         (\<forall>args. list_all2 fits (parallel_message s) args \<longrightarrow>
            (\<exists>line. format_fields (parallel_message s) args = Inr line \<and> length line = 120))"
proof -
  from assms(1) obtain s0 where "configure_prints s0 = Inr s" and "total_procs s0 = n"
    by (auto simp: init_printer_def split: if_splits)
  then show ?thesis using configure_prints_column_widths[of s0 s] assms(2) by simp
qed

theorem column_widths_witness:
  "init_printer 2 [(0, 3), (1, 2)] = Inr demo_init \<and> (1::int) \<le> 2 \<and>
   map col_len (parallel_message demo_init) = [13, 17, 45, 45] \<and>
   length (parallel_divider demo_init) = 120 \<and>
   list_all2 fits (parallel_message demo_init) demo_line_args \<and>
   (\<exists>line. format_fields (parallel_message demo_init) demo_line_args = Inr line \<and> length line = 120)"
proof -
  have h1: "init_printer 2 [(0, 3), (1, 2)] = Inr demo_init" by code_simp
  have h2: "(1::int) \<le> 2" by simp
  have f: "list_all2 fits (parallel_message demo_init) demo_line_args" by code_simp
  from column_widths[OF h1 h2] have
    a: "map col_len (parallel_message demo_init) =
          nat (12 + (120 - 12 - 17) mod 2) # 17 # replicate (nat 2) (nat ((120 - 12 - 17) div 2))"
    and b: "length (parallel_divider demo_init) = 120"
    and c: "\<forall>args. list_all2 fits (parallel_message demo_init) args \<longrightarrow>
            (\<exists>line. format_fields (parallel_message demo_init) args = Inr line \<and> length line = 120)"
    by blast+
  have a': "map col_len (parallel_message demo_init) = [13, 17, 45, 45]"
    using a by (simp add: numeral_2_eq_2)
  from c f have "\<exists>line. format_fields (parallel_message demo_init) demo_line_args = Inr line \<and> length line = 120"
    by blast
  with h1 h2 a' b f show ?thesis by blast
qed

section \<open>Merging the workers' predictions\<close>




section \<open>Properties of the split\<close>

lemma wf_groups_groupby: "wf_groups (groupby_id df)"
proof -
  have "map fst (groupby_id df) = sorted_list_of_set (set (map fst df))"
    by (simp add: groupby_id_def comp_def)
  moreover have "\<forall>(k, g) \<in> set (groupby_id df). g \<noteq> [] \<and> (\<forall>row \<in> set g. fst row = k)"
    by (auto simp: groupby_id_def filter_empty_conv)
  ultimately show ?thesis by (simp add: wf_groups_def)
qed

lemma wf_groups_take: "wf_groups gs \<Longrightarrow> wf_groups (take a gs)"
proof -
  assume w: "wf_groups gs"
  have "set (take a gs) \<subseteq> set gs" by (rule set_take_subset)
  then have "\<forall>(k, g) \<in> set (take a gs). g \<noteq> [] \<and> (\<forall>row \<in> set g. fst row = k)"
    using w unfolding wf_groups_def by blast
  moreover have "sorted (map fst (take a gs))" "distinct (map fst (take a gs))"
    using w unfolding wf_groups_def by (simp_all add: take_map[symmetric] sorted_wrt_take)
  ultimately show ?thesis unfolding wf_groups_def by blast
qed

lemma wf_groups_drop: "wf_groups gs \<Longrightarrow> wf_groups (drop a gs)"
proof -
  assume w: "wf_groups gs"
  have "set (drop a gs) \<subseteq> set gs" by (rule set_drop_subset)
  then have "\<forall>(k, g) \<in> set (drop a gs). g \<noteq> [] \<and> (\<forall>row \<in> set g. fst row = k)"
    using w unfolding wf_groups_def by blast
  moreover have "sorted (map fst (drop a gs))" "distinct (map fst (drop a gs))"
    using w unfolding wf_groups_def by (simp_all add: drop_map[symmetric] sorted_wrt_drop)
  ultimately show ?thesis unfolding wf_groups_def by blast
qed

lemma take_sections_all:
  assumes "\<And>a ys. P ys \<Longrightarrow> P (take a ys)" and "\<And>a ys. P ys \<Longrightarrow> P (drop a ys)" and "P xs"
  shows "\<forall>s \<in> set (take_sections ks xs). P s"
  using assms(3)
proof (induction ks arbitrary: xs)
  case Nil
  then show ?case by simp
next
  case (Cons k ks)
  have "P (take k xs)" using assms(1) Cons.prems by blast
  moreover have "\<forall>s \<in> set (take_sections ks (drop k xs)). P s"
    using Cons.IH assms(2) Cons.prems by blast
  ultimately show ?case by simp
qed

lemma length_take_sections: "length (take_sections ks xs) = length ks"
  by (induction ks arbitrary: xs) auto

lemma concat_take_sections: "concat (take_sections ks xs) = take (sum_list ks) xs"
proof (induction ks arbitrary: xs)
  case Nil
  then show ?case by simp
next
  case (Cons k ks)
  have "take k xs @ take (sum_list ks) (drop k xs) = take (k + sum_list ks) xs"
    by (simp add: take_add)
  then show ?case using Cons by simp
qed

lemma map_length_take_sections:
  "sum_list ks \<le> length xs \<Longrightarrow> map length (take_sections ks xs) = ks"
  by (induction ks arbitrary: xs) auto

lemma sum_list_section_sizes:
  assumes "0 < n"
  shows "sum_list (section_sizes ntotal n) = ntotal"
proof -
  have "ntotal mod n \<le> n" using assms by (simp add: less_imp_le)
  then have "sum_list (section_sizes ntotal n) = ntotal mod n + n * (ntotal div n)"
    by (simp add: section_sizes_def sum_list_replicate algebra_simps)
  then show ?thesis by simp
qed

lemma length_section_sizes:
  assumes "0 < n"
  shows "length (section_sizes ntotal n) = n"
  using assms by (simp add: section_sizes_def less_imp_le)

lemma set_section_sizes:
  "set (section_sizes ntotal n) \<subseteq> {ntotal div n, ntotal div n + 1}"
  by (auto simp: section_sizes_def)

lemma set_unique: "set (unique xs) = set xs"
  by (induction xs) auto

lemma distinct_unique: "distinct (unique xs)"
  by (induction xs) (auto simp: distinct_removeAll)

lemma unique_same_prefix:
  assumes "xs \<noteq> []" and "\<forall>x \<in> set xs. x = k"
  shows "unique (xs @ ys) = k # removeAll k (unique ys)"
  using assms
proof (induction xs)
  case Nil
  then show ?case by simp
next
  case (Cons x xs)
  then have x: "x = k" by simp
  show ?case
  proof (cases "xs = []")
    case True
    then show ?thesis using x by simp
  next
    case False
    then have "unique (xs @ ys) = k # removeAll k (unique ys)" using Cons by simp
    then show ?thesis using x by simp
  qed
qed

lemma wf_groups_Cons:
  assumes "wf_groups ((k, g) # gs)"
  shows "wf_groups gs" and "g \<noteq> []" and "\<forall>row \<in> set g. fst row = k" and "k \<notin> set (map fst gs)"
  using assms by (auto simp: wf_groups_def)

lemma unique_concat_groups:
  "wf_groups gs \<Longrightarrow> unique (map fst (concat (map snd gs))) = map fst gs"
proof (induction gs)
  case Nil
  then show ?case by simp
next
  case (Cons x gs)
  obtain k g where x: "x = (k, g)" by (cases x)
  note w = wf_groups_Cons[OF Cons.prems[unfolded x]]
  have ih: "unique (map fst (concat (map snd gs))) = map fst gs" using Cons.IH w(1) by simp
  have "map fst g \<noteq> []" using w(2) by simp
  moreover have "\<forall>y \<in> set (map fst g). y = k" using w(3) by auto
  ultimately have "unique (map fst g @ map fst (concat (map snd gs)))
      = k # removeAll k (unique (map fst (concat (map snd gs))))"
    by (rule unique_same_prefix)
  also have "\<dots> = k # map fst gs" using ih w(4) by (simp add: removeAll_id)
  finally show ?case using x by simp
qed

lemma collect_map_Inr:
  "\<forall>x \<in> set xs. f x = Inr (g x) \<Longrightarrow> collect (map f xs) = Inr (map g xs)"
  by (induction xs) auto

lemma collect_map_Inl:
  "\<exists>x \<in> set xs. isl (f x) \<Longrightarrow> isl (collect (map f xs))"
proof (induction xs)
  case Nil
  then show ?case by simp
next
  case (Cons x xs)
  show ?case
  proof (cases "f x")
    case (Inl e)
    then show ?thesis by simp
  next
    case (Inr y)
    then have "\<exists>x \<in> set xs. isl (f x)" using Cons.prems by auto
    then have "isl (collect (map f xs))" using Cons.IH by simp
    then show ?thesis using Inr by (cases "collect (map f xs)") auto
  qed
qed

lemma sections_of_props:
  assumes "1 \<le> n"
  shows "length (sections_of df n) = nat n"
    and "concat (sections_of df n) = groupby_id df"
    and "map length (sections_of df n) = section_sizes (length (groupby_id df)) (nat n)"
    and "\<forall>s \<in> set (sections_of df n). wf_groups s"
proof -
  have n: "0 < nat n" using assms by simp
  let ?gs = "groupby_id df"
  let ?ks = "section_sizes (length ?gs) (nat n)"
  have sum: "sum_list ?ks = length ?gs" using sum_list_section_sizes[OF n] .
  show "length (sections_of df n) = nat n"
    by (simp add: sections_of_def length_take_sections length_section_sizes[OF n])
  show "concat (sections_of df n) = ?gs"
    by (simp add: sections_of_def concat_take_sections sum)
  show "map length (sections_of df n) = ?ks"
    by (simp add: sections_of_def map_length_take_sections sum)
  show "\<forall>s \<in> set (sections_of df n). wf_groups s"
    unfolding sections_of_def
    by (rule take_sections_all[where P = wf_groups, OF wf_groups_take wf_groups_drop wf_groups_groupby])
qed

lemma list_of_splits_ok:
  assumes "1 \<le> n" and "nat n \<le> length (groupby_id df)"
  shows "list_of_splits df n = Inr (map (\<lambda>s. concat (map snd s)) (sections_of df n))"
proof -
  have n: "0 < nat n" using assms(1) by simp
  let ?L = "length (groupby_id df)"
  have L: "?L \<noteq> 0" using assms n by linarith
  have "0 < ?L div nat n" using assms(2) n by (simp add: div_greater_zero_iff)
  then have "1 \<le> ?L div nat n" by simp
  then have "\<forall>k \<in> set (section_sizes ?L (nat n)). 1 \<le> k"
    using set_section_sizes[of ?L "nat n"] by auto
  then have "\<forall>k \<in> set (map length (sections_of df n)). 1 \<le> k"
    using sections_of_props(3)[OF assms(1), of df] by metis
  then have ne: "\<forall>s \<in> set (sections_of df n). s \<noteq> []" by fastforce
  have "\<forall>s \<in> set (sections_of df n). frame_of_split ?L s = Inr (concat (map snd s))"
    using ne L by (simp add: frame_of_split_def)
  then have "collect (map (frame_of_split ?L) (sections_of df n))
      = Inr (map (\<lambda>s. concat (map snd s)) (sections_of df n))"
    by (rule collect_map_Inr)
  then show ?thesis
    using assms(1) by (simp add: list_of_splits_def array_split_def Let_def sections_of_def)
qed

lemma list_of_splits_fails:
  assumes "n \<le> 0 \<or> length (groupby_id df) < nat n"
  shows "isl (list_of_splits df n)"
proof (cases "n \<le> 0")
  case True
  then show ?thesis by (simp add: list_of_splits_def array_split_def Let_def)
next
  case False
  then have n1: "1 \<le> n" and lt: "length (groupby_id df) < nat n" using assms by auto
  let ?L = "length (groupby_id df)"
  have "?L div nat n = 0" using lt by simp
  moreover have "?L mod nat n < nat n" using lt by simp
  ultimately have "0 \<in> set (section_sizes ?L (nat n))"
    by (simp add: section_sizes_def)
  then have "0 \<in> set (map length (sections_of df n))"
    using sections_of_props(3)[OF n1, of df] by metis
  then obtain s where s: "s \<in> set (sections_of df n)" and "s = []" by auto
  then have "isl (frame_of_split ?L s)" by (simp add: frame_of_split_def)
  with s have "\<exists>s \<in> set (sections_of df n). isl (frame_of_split ?L s)" by blast
  then have "isl (collect (map (frame_of_split ?L) (sections_of df n)))"
    by (rule collect_map_Inl)
  then show ?thesis
    using False by (simp add: list_of_splits_def array_split_def Let_def sections_of_def)
qed


lemma section_nunique:
  assumes "wf_groups s"
  shows "nunique (concat (map snd s)) = length s"
  using unique_concat_groups[OF assms] by (simp add: nunique_def)

lemma list_of_splits_balanced:
  assumes "1 \<le> n" and "nat n \<le> length (groupby_id df)"
  shows "\<exists>splits. list_of_splits df n = Inr splits \<and> length splits = nat n \<and>
           (\<forall>a \<in> set splits. \<forall>b \<in> set splits. nunique a \<le> nunique b + 1) \<and>
           concat (map (\<lambda>s. unique (map fst s)) splits) = sorted_list_of_set (set (map fst df))"
proof -
  let ?secs = "sections_of df n"
  let ?splits = "map (\<lambda>s. concat (map snd s)) ?secs"
  note p = sections_of_props[OF assms(1), of df]
  have ok: "list_of_splits df n = Inr ?splits" using list_of_splits_ok[OF assms] .
  have len: "length ?splits = nat n" using p(1) by simp
  have nu: "\<And>s. s \<in> set ?secs \<Longrightarrow> nunique (concat (map snd s)) = length s"
    using p(4) section_nunique by blast
  have sz: "\<And>s. s \<in> set ?secs \<Longrightarrow>
      length s \<in> {length (groupby_id df) div nat n, length (groupby_id df) div nat n + 1}"
  proof -
    fix s assume "s \<in> set ?secs"
    then have "length s \<in> set (map length ?secs)" by simp
    then have "length s \<in> set (section_sizes (length (groupby_id df)) (nat n))"
      using p(3) by metis
    then show "length s \<in> {length (groupby_id df) div nat n, length (groupby_id df) div nat n + 1}"
      using set_section_sizes by blast
  qed
  have bal: "\<forall>a \<in> set ?splits. \<forall>b \<in> set ?splits. nunique a \<le> nunique b + 1"
  proof (intro ballI)
    fix a b assume "a \<in> set ?splits" and "b \<in> set ?splits"
    then obtain sa sb where sa: "sa \<in> set ?secs" "a = concat (map snd sa)"
      and sb: "sb \<in> set ?secs" "b = concat (map snd sb)" by auto
    have "nunique a = length sa" "nunique b = length sb" using nu sa sb by auto
    then show "nunique a \<le> nunique b + 1" using sz[OF sa(1)] sz[OF sb(1)] by auto
  qed
  have u: "\<forall>s \<in> set ?secs. unique (map fst (concat (map snd s))) = map fst s"
    using p(4) unique_concat_groups by blast
  have "map ((\<lambda>s. unique (map fst s)) \<circ> (\<lambda>s. concat (map snd s))) ?secs = map (map fst) ?secs"
  proof (rule map_cong[OF refl])
    fix s assume "s \<in> set ?secs"
    then show "((\<lambda>s. unique (map fst s)) \<circ> (\<lambda>s. concat (map snd s))) s = map fst s"
      unfolding comp_def using u by blast
  qed
  then have "map (\<lambda>s. unique (map fst s)) ?splits = map (map fst) ?secs"
    unfolding map_map .
  then have "concat (map (\<lambda>s. unique (map fst s)) ?splits) = concat (map (map fst) ?secs)"
    by presburger
  also have "\<dots> = map fst (concat ?secs)"
    by (simp add: map_concat)
  also have "\<dots> = sorted_list_of_set (set (map fst df))"
    using p(2) by (simp add: groupby_id_def comp_def)
  finally have cov: "concat (map (\<lambda>s. unique (map fst s)) ?splits)
      = sorted_list_of_set (set (map fst df))" .
  show ?thesis using ok len bal cov by blast
qed

text \<open>
  C3. With at least as many groups as workers the split is as claimed
  (\<open>list_of_splits_balanced\<close>: \<open>n\<close> splits, group counts at most one apart, every
  identifier in exactly one split). With fewer groups than workers the code raises instead:
  one group and two workers leave the second section without a group, and \<open>pd.concat\<close>
  of nothing raises \<open>ValueError\<close>.
\<close>

theorem split_fewer_groups_than_workers:
  "list_of_splits [(1::nat, ())] 2 = Inl ValueError"
  by code_simp




section \<open>Properties of the workers\<close>

lemma index_of_nth:
  assumes "distinct xs" and "i < length xs"
  shows "index_of xs (xs ! i) = i"
proof -
  have "takeWhile (\<lambda>x. x \<noteq> xs ! i) xs = take i xs"
  proof (rule takeWhile_eq_take_P_nth)
    fix j assume "j < i" and "j < length xs"
    then show "xs ! j \<noteq> xs ! i" using assms by (simp add: nth_eq_iff_index_eq)
  next
    show "i < length xs \<Longrightarrow> \<not> xs ! i \<noteq> xs ! i" by simp
  qed
  then show ?thesis using assms(2) by (simp add: index_of_def)
qed

lemma map_index_of:
  assumes "distinct xs"
  shows "map (index_of xs) xs = [0 ..< length xs]"
  by (rule nth_equalityI) (simp_all add: index_of_nth[OF assms])

lemma worker_jobs_numbers:
  assumes "wf_groups sec"
  shows "map (\<lambda>(k, g, j). j) (worker_jobs (concat (map snd sec))) = [0 ..< length sec]"
    and "map fst (worker_jobs (concat (map snd sec))) = map fst sec"
proof -
  let ?df = "concat (map snd sec)"
  let ?ks = "map fst sec"
  have u: "unique (map fst ?df) = ?ks" using unique_concat_groups[OF assms] .
  have sd: "sorted ?ks" "distinct ?ks" using assms by (simp_all add: wf_groups_def)
  have "set (map fst ?df) = set ?ks" using u set_unique by metis
  moreover have "sorted_list_of_set (set ?ks) = ?ks"
    using sd by (rule sorted_list_of_set.idem_if_sorted_distinct)
  ultimately have "sorted_list_of_set (set (map fst ?df)) = ?ks"
    by presburger
  then have k: "map fst (groupby_id ?df) = ?ks" by (simp add: groupby_id_def comp_def)
  have "map (\<lambda>(k, g, j). j) (worker_jobs ?df) = map (index_of ?ks) (map fst (groupby_id ?df))"
    unfolding worker_jobs_def u by (simp add: comp_def case_prod_unfold)
  also have "\<dots> = [0 ..< length sec]" using k map_index_of[OF sd(2)] by simp
  finally show "map (\<lambda>(k, g, j). j) (worker_jobs ?df) = [0 ..< length sec]" .
  show "map fst (worker_jobs ?df) = ?ks"
    using k by (simp add: worker_jobs_def comp_def case_prod_unfold)
qed

lemma pool_inv_start: "pool_inv fit_predict (map worker_jobs splits) (start_pool splits pr)"
  by (simp add: pool_inv_def start_pool_def calls_of_def)

lemma drop_eq_Cons:
  assumes "drop m xs = x # rest"
  shows "m < length xs" and "xs ! m = x" and "drop (Suc m) xs = rest"
    and "take (Suc m) xs = take m xs @ [x]"
proof -
  show m: "m < length xs" using assms by (cases "m < length xs") auto
  from Cons_nth_drop_Suc[OF m] assms show x: "xs ! m = x" and "drop (Suc m) xs = rest" by auto
  show "take (Suc m) xs = take m xs @ [x]" using take_Suc_conv_app_nth[OF m] x by simp
qed

lemma pool_step_inv:
  assumes inv: "pool_inv fit_predict jobs0 st"
    and step: "pool_step fit_predict (t, proc) st = Inr st'"
  shows "pool_inv fit_predict jobs0 st'"
proof (cases "proc < length (pending st) \<and> pending st ! proc \<noteq> []")
  case False
  then have "st' = st" using step
    by (auto simp: pool_step_def Let_def split: list.splits if_splits)
  then show ?thesis using inv by simp
next
  case True
  then have pl: "proc < length (pending st)" by simp
  from True obtain k g j rest where hd: "pending st ! proc = (k, g, j) # rest"
    by (cases "pending st ! proc") auto
  from step pl hd obtain y pr where
    fit: "fit_predict g = Inr y"
    and st': "st' = st\<lparr>pending := (pending st)[proc := rest],
                       finished := (finished st)[proc := finished st ! proc @ [(k, y)]],
                       started := started st @ [k],
                       calls := calls st @ [(proc, j)],
                       shared_printer := pr\<rparr>"
    by (auto simp: pool_step_def Let_def split: sum.splits)
  have lp: "length (pending st) = length jobs0" and lf: "length (finished st) = length jobs0"
    using inv by (simp_all add: pool_inv_def)
  have f': "pending st' = (pending st)[proc := rest]"
    "finished st' = (finished st)[proc := finished st ! proc @ [(k, y)]]"
    "calls st' = calls st @ [(proc, j)]"
    by (simp_all add: st')
  have pj: "proc < length jobs0" using pl lp by simp
  let ?J = "jobs0 ! proc"
  let ?m = "length (finished st ! proc)"
  from inv pj have
    i2: "pending st ! proc = drop ?m ?J"
    and i3: "map (\<lambda>(k, y). (k, Inr y)) (finished st ! proc) =
             map (\<lambda>(k, g, j). (k, fit_predict g)) (take ?m ?J)"
    and i4: "calls_of proc st = map (\<lambda>(k, g, j). j) (take ?m ?J)"
    by (simp_all add: pool_inv_def)
  from i2 hd have "drop ?m ?J = (k, g, j) # rest" by simp
  note d = drop_eq_Cons[OF this]
  show ?thesis
    unfolding pool_inv_def
  proof (intro conjI allI impI)
    show "length (pending st') = length jobs0" using lp by (simp add: f')
    show "length (finished st') = length jobs0" using lf by (simp add: f')
  next
    fix p assume p: "p < length jobs0"
    show "length (finished st' ! p) \<le> length (jobs0 ! p)"
    proof (cases "p = proc")
      case True
      then show ?thesis using d(1) lf pj by (simp add: f')
    next
      case False
      then show ?thesis using inv p by (simp add: f' pool_inv_def)
    qed
    show "pending st' ! p = drop (length (finished st' ! p)) (jobs0 ! p)"
    proof (cases "p = proc")
      case True
      then show ?thesis using d(3) lf lp pj by (simp add: f')
    next
      case False
      then show ?thesis using inv p by (simp add: f' pool_inv_def)
    qed
    show "map (\<lambda>(k, y). (k, Inr y)) (finished st' ! p) =
            map (\<lambda>(k, g, j). (k, fit_predict g)) (take (length (finished st' ! p)) (jobs0 ! p))"
    proof (cases "p = proc")
      case True
      then show ?thesis using d(4) i3 fit lf pj by (simp add: f')
    next
      case False
      then show ?thesis using inv p by (simp add: f' pool_inv_def)
    qed
    show "calls_of p st' = map (\<lambda>(k, g, j). j) (take (length (finished st' ! p)) (jobs0 ! p))"
    proof (cases "p = proc")
      case True
      have "calls_of proc st' = calls_of proc st @ [j]" by (simp add: calls_of_def f')
      then show ?thesis using True d(4) i4 lf pj by (simp add: f')
    next
      case False
      have "calls_of p st' = calls_of p st" using False by (simp add: calls_of_def f')
      then show ?thesis using False inv p by (simp add: f' pool_inv_def)
    qed
  qed
qed

lemma run_pool_inv:
  assumes "pool_inv fit_predict jobs0 st" and "run_pool fit_predict sched st = Inr st'"
  shows "pool_inv fit_predict jobs0 st'"
  using assms
proof (induction sched arbitrary: st)
  case Nil
  then show ?case by simp
next
  case (Cons tp sched)
  obtain t proc where tp: "tp = (t, proc)" by (cases tp)
  from Cons.prems(2) obtain st1 where
    s1: "pool_step fit_predict (t, proc) st = Inr st1" and r: "run_pool fit_predict sched st1 = Inr st'"
    by (auto simp: tp split: sum.splits)
  from pool_step_inv[OF Cons.prems(1) s1] Cons.IH r show ?case by blast
qed

lemma list_of_splits_sections:
  assumes "list_of_splits df n = Inr splits"
  shows "1 \<le> n" and "splits = map (\<lambda>s. concat (map snd s)) (sections_of df n)"
    and "length splits = length (sections_of df n)"
proof -
  have "\<not> (n \<le> 0 \<or> length (groupby_id df) < nat n)"
    using list_of_splits_fails[of n df] assms by auto
  then have n: "1 \<le> n" and l: "nat n \<le> length (groupby_id df)" by auto
  show "1 \<le> n" using n .
  show s: "splits = map (\<lambda>s. concat (map snd s)) (sections_of df n)"
    using list_of_splits_ok[OF n l] assms by simp
  show "length splits = length (sections_of df n)" using s by simp
qed

lemma split_jobs:
  assumes "list_of_splits df n = Inr splits" and "p < length splits"
  shows "map (\<lambda>(k, g, j). j) (worker_jobs (splits ! p)) = [0 ..< nunique (splits ! p)]"
    and "length (worker_jobs (splits ! p)) = nunique (splits ! p)"
proof -
  note s = list_of_splits_sections[OF assms(1)]
  let ?sec = "sections_of df n ! p"
  have pl: "p < length (sections_of df n)" using assms(2) s(3) by simp
  then have w: "wf_groups ?sec" using sections_of_props(4)[OF s(1), of df] by simp
  have sp: "splits ! p = concat (map snd ?sec)" using s(2) pl by simp
  have nu: "nunique (splits ! p) = length ?sec" using section_nunique[OF w] sp by simp
  show a: "map (\<lambda>(k, g, j). j) (worker_jobs (splits ! p)) = [0 ..< nunique (splits ! p)]"
    using worker_jobs_numbers(1)[OF w] sp nu by simp
  have "length (map (\<lambda>(k, g, j). j) (worker_jobs (splits ! p))) = nunique (splits ! p)"
    unfolding a by simp
  then show "length (worker_jobs (splits ! p)) = nunique (splits ! p)" by simp
qed





section \<open>A run that ends with predictions\<close>

text \<open>
  With one to thirty workers, at least as many groups as workers, a fit routine that does
  not raise and a schedule that gives every worker as many steps as its split can have
  groups, \<open>parallel_fit_predict\<close> raises nothing and ends with predictions
  (\<open>parallel_fit_predict_done\<close>).
\<close>

lemma format_error_replicate:
  "0 \<le> w \<Longrightarrow> k \<le> m \<Longrightarrow> format_error (replicate k (Field pre c al w suf)) m = None"
proof (induction k arbitrary: m)
  case 0
  then show ?case by simp
next
  case (Suc k)
  then obtain m' where "m = Suc m'" by (cases m) auto
  then show ?case using Suc by simp
qed

lemma format_fields_Inr:
  assumes "format_error fs (length args) = None"
  shows "\<exists>line. format_fields fs args = Inr line"
  using format_fields_error[of fs args] assms
  by (cases "format_fields fs args") auto

lemma col_len_bounds:
  assumes "1 \<le> n" and "n \<le> 30"
  shows "3 \<le> process_col_len n" and "12 \<le> time_col_len n"
proof -
  have "(91::int) div 30 \<le> 91 div n" using assms by (intro zdiv_mono2) auto
  then show "3 \<le> process_col_len n"
    by (simp add: process_col_len_def time_col_len0_def job_col_len_def)
  have "0 \<le> (91::int) mod n" using assms by simp
  then show "12 \<le> time_col_len n"
    by (simp add: time_col_len_def time_col_len0_def job_col_len_def)
qed

lemma configure_prints_succeeds:
  assumes "1 \<le> total_procs s" and "total_procs s \<le> 30"
  shows "\<exists>s'. configure_prints s = Inr s'"
proof -
  let ?n = "total_procs s"
  note b = col_len_bounds[OF assms]
  obtain k where k: "nat (?n + 2) = Suc (Suc k)" "nat ?n = k"
    using assms(1) by (cases "nat (?n + 2)") (auto simp: nat_add_distrib)
  have "format_error (parallel_divider_fmt ?n) (nat (?n + 2)) = None"
    unfolding parallel_divider_fmt_def k using b
    by (simp add: job_col_len_def format_error_replicate)
  then obtain d where d: "format_fields (parallel_divider_fmt ?n) (replicate (nat (?n + 2)) []) = Inr d"
    using format_fields_Inr[of "parallel_divider_fmt ?n" "replicate (nat (?n + 2)) []"] by auto
  have "format_error (parallel_message_fmt ?n) (Suc (Suc (nat ?n))) = None"
    unfolding parallel_message_fmt_def using b
    by (simp add: job_col_len_def format_error_replicate)
  then obtain t where t: "format_fields (parallel_message_fmt ?n)
      (''Time'' # ''Job # / Total'' # process_titles ?n) = Inr t"
    using format_fields_Inr[of "parallel_message_fmt ?n" "''Time'' # ''Job # / Total'' # process_titles ?n"]
    by (auto simp: length_process_titles)
  show ?thesis using assms(1) d t by (simp add: configure_prints_def Let_def)
qed

lemma init_printer_succeeds:
  assumes "1 \<le> n" and "n \<le> 30" and "d \<noteq> []"
  shows "\<exists>s. init_printer n d = Inr s"
  using assms configure_prints_succeeds by (simp add: init_printer_def)

lemma process_job_dict_nth:
  assumes "list_of_splits df n = Inr splits" and "p < length splits"
  shows "length (process_job_dict n splits) = length splits"
    and "process_job_dict n splits ! p = (p, nunique (splits ! p))"
    and "map fst (process_job_dict n splits) = [0 ..< length splits]"
proof -
  note s = list_of_splits_sections[OF assms(1)]
  have l: "length splits = nat n" using s(3) sections_of_props(1)[OF s(1), of df] by simp
  show "length (process_job_dict n splits) = length splits"
    by (simp add: process_job_dict_def l)
  show "process_job_dict n splits ! p = (p, nunique (splits ! p))"
    using assms(2) l by (simp add: process_job_dict_def)
  show "map fst (process_job_dict n splits) = [0 ..< length splits]"
    by (simp add: process_job_dict_def l)
qed

lemma pool_step_ok:
  fixes fit_predict :: "('k::linorder, 'r) frame \<Rightarrow> error + 'p"
  assumes inv: "pool_inv fit_predict (map worker_jobs splits) st"
    and sp: "list_of_splits df n = Inr splits"
    and wf: "wf_printer (shared_printer st)"
    and dict: "proc_job_dict (shared_printer st) = process_job_dict n splits"
    and total: "\<forall>g. \<exists>y. fit_predict g = Inr y"
  shows "\<exists>st'. pool_step fit_predict (t, proc) st = Inr st' \<and>
           wf_printer (shared_printer st') \<and>
           proc_job_dict (shared_printer st') = process_job_dict n splits \<and>
           length (pending st') = length (pending st) \<and>
           (\<forall>p < length (pending st). length (pending st' ! p) =
               (if p = proc then length (pending st ! p) - 1 else length (pending st ! p)))"
proof (cases "proc < length (pending st) \<and> pending st ! proc \<noteq> []")
  case False
  then have "pool_step fit_predict (t, proc) st = Inr st"
    by (auto simp: pool_step_def Let_def split: list.splits)
  moreover have "\<forall>p < length (pending st). length (pending st ! p) =
               (if p = proc then length (pending st ! p) - 1 else length (pending st ! p))"
    using False by auto
  ultimately show ?thesis using wf dict by auto
next
  case True
  then have pl: "proc < length (pending st)" by simp
  from True obtain k g j rest where hd: "pending st ! proc = (k, g, j) # rest"
    by (cases "pending st ! proc") auto
  have lp: "length (pending st) = length splits" using inv by (simp add: pool_inv_def)
  have ps: "proc < length splits" using pl lp by simp
  let ?J = "worker_jobs (splits ! proc)"
  let ?m = "length (finished st ! proc)"
  from inv ps have i2: "pending st ! proc = drop ?m ?J" by (simp add: pool_inv_def)
  from i2 hd have "drop ?m ?J = (k, g, j) # rest" by simp
  note d = drop_eq_Cons[OF this]
  note jobs = split_jobs[OF sp ps]
  have "map (\<lambda>(k, g, j). j) ?J ! ?m = j" using d(1,2) by simp
  then have jm: "j = ?m" using jobs(1) d(1) jobs(2) by simp
  have jc: "j < nunique (splits ! proc)" using jm d(1) jobs(2) by simp
  note pd = process_job_dict_nth[OF sp ps]
  let ?pr = "shared_printer st"
  have pp: "proc < length (proc_job_dict ?pr)" using dict pd(1) ps by simp
  have "(proc, nunique (splits ! proc)) \<in> set (proc_job_dict ?pr)"
    using dict pd(1,2) ps by (metis nth_mem)
  then have "nunique (splits ! proc) \<le> max_jobs ?pr"
    using wf by (auto simp: wf_printer_def)
  then have jmax: "j < max_jobs ?pr" using jc by simp
  from update_result[OF wf pp jmax, of t] obtain pr' where
    u: "update t proc j ?pr = Inr pr'" and wf': "wf_printer pr'"
    and d': "proc_job_dict pr' = proc_job_dict ?pr" by blast
  from total obtain y where y: "fit_predict g = Inr y" by blast
  let ?st' = "st\<lparr>pending := (pending st)[proc := rest],
                  finished := (finished st)[proc := finished st ! proc @ [(k, y)]],
                  started := started st @ [k],
                  calls := calls st @ [(proc, j)],
                  shared_printer := pr'\<rparr>"
  have step: "pool_step fit_predict (t, proc) st = Inr ?st'"
    using pl hd y u by (simp add: pool_step_def Let_def)
  have "\<forall>p < length (pending st). length (pending ?st' ! p) =
               (if p = proc then length (pending st ! p) - 1 else length (pending st ! p))"
    using hd by (auto simp: nth_list_update)
  then show ?thesis using step wf' d' dict by auto
qed

lemma run_pool_ok:
  fixes fit_predict :: "('k::linorder, 'r) frame \<Rightarrow> error + 'p"
  assumes "pool_inv fit_predict (map worker_jobs splits) st"
    and "list_of_splits df n = Inr splits"
    and "wf_printer (shared_printer st)"
    and "proc_job_dict (shared_printer st) = process_job_dict n splits"
    and "\<forall>g. \<exists>y. fit_predict g = Inr y"
    and "\<forall>p < length (pending st). length (pending st ! p) \<le> count_list (map snd sched) p"
  shows "\<exists>st'. run_pool fit_predict sched st = Inr st' \<and> list_all (\<lambda>js. js = []) (pending st')"
  using assms(1,3,4,6)
proof (induction sched arbitrary: st)
  case Nil
  then have "\<forall>p < length (pending st). pending st ! p = []" by simp
  then show ?case by (simp add: list_all_length)
next
  case (Cons tp sched)
  obtain t proc where tp: "tp = (t, proc)" by (cases tp)
  from pool_step_ok[OF Cons.prems(1) assms(2) Cons.prems(2,3) assms(5), of t proc] obtain st1 where
    s1: "pool_step fit_predict (t, proc) st = Inr st1"
    and wf1: "wf_printer (shared_printer st1)"
    and d1: "proc_job_dict (shared_printer st1) = process_job_dict n splits"
    and l1: "length (pending st1) = length (pending st)"
    and p1: "\<forall>p < length (pending st). length (pending st1 ! p) =
               (if p = proc then length (pending st ! p) - 1 else length (pending st ! p))"
    by blast
  have inv1: "pool_inv fit_predict (map worker_jobs splits) st1"
    using pool_step_inv[OF Cons.prems(1) s1] .
  have c1: "\<forall>p < length (pending st1). length (pending st1 ! p) \<le> count_list (map snd sched) p"
  proof (intro allI impI)
    fix p assume p: "p < length (pending st1)"
    then have a: "length (pending st ! p) \<le> count_list (map snd (tp # sched)) p"
      using Cons.prems(4) l1 by simp
    have b: "length (pending st1 ! p) =
               (if p = proc then length (pending st ! p) - 1 else length (pending st ! p))"
      using p1 p l1 by simp
    show "length (pending st1 ! p) \<le> count_list (map snd sched) p"
      using a b tp by (cases "p = proc") auto
  qed
  from Cons.IH[OF inv1 wf1 d1 c1] obtain st' where
    "run_pool fit_predict sched st1 = Inr st'" "list_all (\<lambda>js. js = []) (pending st')" by blast
  then show ?case using s1 tp by auto
qed

lemma parallel_fit_predict_done:
  fixes fit_predict :: "('k::linorder, 'r) frame \<Rightarrow> error + 'p"
  assumes n: "1 \<le> n" "n \<le> 30" and groups: "nat n \<le> length (groupby_id df)"
    and total: "\<forall>g. \<exists>y. fit_predict g = Inr y"
    and fair: "\<forall>p < nat n. length (groupby_id df) div nat n + 1 \<le> count_list (map snd sched) p"
  shows "\<exists>r c. parallel_fit_predict fit_predict df n t0 sched = Done r c"
proof -
  from list_of_splits_balanced[OF n(1) groups] obtain splits where
    sp: "list_of_splits df n = Inr splits" and ls: "length splits = nat n" by blast
  let ?d = "process_job_dict n splits"
  have ne: "?d \<noteq> []" using ls n(1) by (auto simp: process_job_dict_def)
  from init_printer_succeeds[OF n ne] obtain pr where pr: "init_printer n ?d = Inr pr" by blast
  have ld: "length ?d = nat n" by (simp add: process_job_dict_def ls)
  have keys: "map fst ?d = [0 ..< length ?d]" by (simp add: process_job_dict_def ls)
  have nl: "n = int (length ?d)" using ld n(1) by simp
  let ?pr = "print_notify_parallel_begin t0 pr"
  have "init_printer (int (length ?d)) ?d = Inr pr" using pr nl by simp
  from init_printer_wf[OF this keys, of t0] have wf: "wf_printer ?pr" and pd: "proc_job_dict ?pr = ?d"
    by auto
  let ?st = "start_pool splits ?pr :: ('k, 'r, 'p) pool"
  have inv: "pool_inv fit_predict (map worker_jobs splits) ?st" by (rule pool_inv_start)
  have wf0: "wf_printer (shared_printer ?st)" using wf by (simp add: start_pool_def)
  have d0: "proc_job_dict (shared_printer ?st) = ?d" using pd by (simp add: start_pool_def)
  note secs = list_of_splits_sections[OF sp]
  have c0: "\<forall>p < length (pending ?st). length (pending ?st ! p) \<le> count_list (map snd sched) p"
  proof (intro allI impI)
    fix p assume "p < length (pending ?st)"
    then have p: "p < length splits" by (simp add: start_pool_def)
    have "length (pending ?st ! p) = nunique (splits ! p)"
      using split_jobs(2)[OF sp p] p by (simp add: start_pool_def)
    also have "\<dots> = length (sections_of df n ! p)"
    proof -
      have q: "p < length (sections_of df n)" using p secs(3) by simp
      then have "wf_groups (sections_of df n ! p)"
        using sections_of_props(4)[OF n(1), of df] by simp
      then have "nunique (concat (map snd (sections_of df n ! p))) = length (sections_of df n ! p)"
        by (rule section_nunique)
      moreover have "splits ! p = concat (map snd (sections_of df n ! p))"
        using secs(2) q by simp
      ultimately show ?thesis by simp
    qed
    also have "\<dots> \<le> length (groupby_id df) div nat n + 1"
    proof -
      have "length (sections_of df n ! p) \<in> set (map length (sections_of df n))"
        using p secs(3) by simp
      then have "length (sections_of df n ! p) \<in> set (section_sizes (length (groupby_id df)) (nat n))"
        using sections_of_props(3)[OF n(1), of df] by metis
      then show ?thesis using set_section_sizes by fastforce
    qed
    finally show "length (pending ?st ! p) \<le> count_list (map snd sched) p"
      using fair p ls by fastforce
  qed
  from run_pool_ok[OF inv sp wf0 d0 total c0] obtain st' where
    run: "run_pool fit_predict sched ?st = Inr st'" and e: "list_all (\<lambda>js. js = []) (pending st')"
    by blast
  have "pool_inv fit_predict (map worker_jobs splits) st'" using run_pool_inv[OF inv run] .
  then have "finished st' \<noteq> []" using ls n(1) by (auto simp: pool_inv_def)
  then show ?thesis using sp pr run e
    by (simp add: parallel_fit_predict_def concat_frames_def)
qed

end
